theory Spec2Isabelle
  imports Main
begin

section \<open>Python values used by the two scripts\<close>

text \<open>
  A Python \<open>str\<close> is a sequence of Unicode code points, so a string is a list of code
  points here; \<open>ascii\<close> turns an ASCII literal into one. The exceptions the modelled
  functions name or can meet are \<open>ValueError\<close> and \<open>IndexError\<close>.
\<close>

type_synonym str = "nat list"

definition ascii :: "string \<Rightarrow> str" where
  "ascii s = map of_char s"

datatype error = ValueError | IndexError

text \<open>
  \<open>\d\<close> in a \<open>str\<close> pattern and \<open>int()\<close> on a \<open>str\<close> both use the Unicode decimal
  digits (category Nd). They come in runs of ten consecutive code points with the values
  0 to 9; \<open>decimal_zeros\<close> lists the code point of the zero of every run (Unicode 14.0, the
  table of CPython 3.11).
\<close>

definition decimal_zeros :: "nat list" where
  "decimal_zeros =
    [0x30, 0x660, 0x6F0, 0x7C0, 0x966, 0x9E6, 0xA66, 0xAE6, 0xB66, 0xBE6, 0xC66, 0xCE6,
     0xD66, 0xDE6, 0xE50, 0xED0, 0xF20, 0x1040, 0x1090, 0x17E0, 0x1810, 0x1946, 0x19D0,
     0x1A80, 0x1A90, 0x1B50, 0x1BB0, 0x1C40, 0x1C50, 0xA620, 0xA8D0, 0xA900, 0xA9D0,
     0xA9F0, 0xAA50, 0xABF0, 0xFF10, 0x104A0, 0x10D30, 0x11066, 0x110F0, 0x11136,
     0x111D0, 0x112F0, 0x11450, 0x114D0, 0x11650, 0x116C0, 0x11730, 0x118E0, 0x11950,
     0x11C50, 0x11D50, 0x11DA0, 0x16A60, 0x16AC0, 0x16B50, 0x1D7CE, 0x1D7D8, 0x1D7E2,
     0x1D7EC, 0x1D7F6, 0x1E140, 0x1E2F0, 0x1E950, 0x1FBF0]"

definition decimal :: "nat \<Rightarrow> nat option" where
  "decimal c =
     (case find (\<lambda>z. z \<le> c \<and> c < z + 10) decimal_zeros of
        None \<Rightarrow> None
      | Some z \<Rightarrow> Some (c - z))"

text \<open>
  The scripts call \<open>int\<close> on matched text and on integers alike, so its argument is either.
  On a \<open>str\<close> the model covers the texts that reach it, runs of decimal digits: an empty
  text or any other character is a \<open>ValueError\<close>. (Python also accepts a sign, surrounding
  white space and single underscores, which text matched by \<open>\d\<close> never holds.)
\<close>

datatype arg = StrArg str | IntArg int

fun int_digits :: "int \<Rightarrow> str \<Rightarrow> error + int" where
  "int_digits acc [] = Inr acc"
| "int_digits acc (c # cs) =
     (case decimal c of
        None \<Rightarrow> Inl ValueError
      | Some v \<Rightarrow> int_digits (10 * acc + int v) cs)"

fun py_int :: "arg \<Rightarrow> error + int" where
  "py_int (IntArg i) = Inr i"
| "py_int (StrArg s) = (if s = [] then Inl ValueError else int_digits 0 s)"

text \<open>\<open>str(n)\<close> and \<open>f"{n}"\<close> of an integer: decimal digits, with a minus sign below zero.\<close>

fun digits_of :: "nat \<Rightarrow> str" where
  "digits_of n = (if n < 10 then [48 + n] else digits_of (n div 10) @ [48 + n mod 10])"

declare digits_of.simps [simp del]

definition py_str :: "int \<Rightarrow> str" where
  "py_str n = (if n < 0 then 45 # digits_of (nat (- n)) else digits_of (nat n))"

section \<open>The regular expressions\<close>

text \<open>
  Both patterns are sequences of single-character classes, some of them inside capturing
  groups: \<open>\d\<close>, a literal, a range \<open>[2-9]\<close> and a set \<open>[.\-_]\<close>. Every piece has a fixed
  width, so a match at a position is unique, and \<open>re.search\<close> returns the match at the
  leftmost position that has one.
\<close>

datatype cls = Digit | Lit nat | Range nat nat | Set "nat list"

fun cls_match :: "cls \<Rightarrow> nat \<Rightarrow> bool" where
  "cls_match Digit c = (decimal c \<noteq> None)"
| "cls_match (Lit l) c = (c = l)"
| "cls_match (Range lo hi) c = (lo \<le> c \<and> c \<le> hi)"
| "cls_match (Set cs) c = (c \<in> set cs)"

datatype piece = Grp "cls list" | One cls

fun match_classes :: "cls list \<Rightarrow> str \<Rightarrow> (str \<times> str) option" where
  "match_classes [] s = Some ([], s)"
| "match_classes (k # ks) [] = None"
| "match_classes (k # ks) (c # s) =
     (if cls_match k c
      then (case match_classes ks s of None \<Rightarrow> None | Some (t, r) \<Rightarrow> Some (c # t, r))
      else None)"

fun match_at :: "piece list \<Rightarrow> str \<Rightarrow> str list option" where
  "match_at [] s = Some []"
| "match_at (One k # ps) s =
     (case match_classes [k] s of None \<Rightarrow> None | Some (t, r) \<Rightarrow> match_at ps r)"
| "match_at (Grp ks # ps) s =
     (case match_classes ks s of
        None \<Rightarrow> None
      | Some (t, r) \<Rightarrow> (case match_at ps r of None \<Rightarrow> None | Some gs \<Rightarrow> Some (t # gs)))"

fun re_search :: "piece list \<Rightarrow> str \<Rightarrow> str list option" where
  "re_search ps [] = match_at ps []"
| "re_search ps (c # s) =
     (case match_at ps (c # s) of Some gs \<Rightarrow> Some gs | None \<Rightarrow> re_search ps s)"

text \<open>\<open>(\d{4})[.\-_](\d{2})[.\-_](\d{2})\<close>\<close>

definition delimited_pattern :: "piece list" where
  "delimited_pattern =
     [Grp [Digit, Digit, Digit, Digit], One (Set (ascii ''.-_'')), Grp [Digit, Digit],
      One (Set (ascii ''.-_'')), Grp [Digit, Digit]]"

text \<open>\<open>(20[2-9]\d)(\d{4})\<close>\<close>

definition contiguous_pattern :: "piece list" where
  "contiguous_pattern =
     [Grp [Lit 0x32, Lit 0x30, Range 0x32 0x39, Digit], Grp [Digit, Digit, Digit, Digit]]"

section \<open>\<open>os.path.splitext\<close>\<close>

text \<open>
  \<open>os.path\<close> is \<open>posixpath\<close> or \<open>ntpath\<close>; both call \<open>genericpath._splitext\<close>, with the
  separator \<open>/\<close> on POSIX and with \<open>\\<close> and the alternative \<open>/\<close> on Windows.
  \<open>rfind\<close> is \<open>str.rfind\<close> for one character: the last index, or \<open>-1\<close>.
\<close>

fun rfind :: "nat \<Rightarrow> str \<Rightarrow> int" where
  "rfind c [] = - 1"
| "rfind c (x # xs) =
     (let r = rfind c xs in if 0 \<le> r then r + 1 else if x = c then 0 else - 1)"

text \<open>
  The loop that skips the leading dots of the file name: \<open>True\<close> when it finds a
  character other than the dot before \<open>dotIndex\<close>, where the source returns the split.
\<close>

function skip_leading_dots :: "str \<Rightarrow> nat \<Rightarrow> nat \<Rightarrow> nat \<Rightarrow> bool" where
  "skip_leading_dots p extsep filenameIndex dotIndex =
     (if filenameIndex < dotIndex
      then (if take 1 (drop filenameIndex p) \<noteq> [extsep] then True
            else skip_leading_dots p extsep (filenameIndex + 1) dotIndex)
      else False)"
  by pat_completeness auto
termination
  by (relation "measure (\<lambda>(p, extsep, filenameIndex, dotIndex). dotIndex - filenameIndex)") auto

declare skip_leading_dots.simps [simp del]

definition splitext_generic :: "str \<Rightarrow> nat \<Rightarrow> nat option \<Rightarrow> nat \<Rightarrow> str \<times> str" where
  "splitext_generic p sep altsep extsep =
     (let sepIndex = rfind sep p;
          sepIndex = (case altsep of None \<Rightarrow> sepIndex | Some a \<Rightarrow> max sepIndex (rfind a p));
          dotIndex = rfind extsep p
      in if dotIndex > sepIndex
            \<and> skip_leading_dots p extsep (nat (sepIndex + 1)) (nat dotIndex)
         then (take (nat dotIndex) p, drop (nat dotIndex) p)
         else (p, []))"

datatype os = Posix | Nt

fun splitext :: "os \<Rightarrow> str \<Rightarrow> str \<times> str" where
  "splitext Posix p = splitext_generic p 0x2F None 0x2E"
| "splitext Nt p = splitext_generic p 0x5C (Some 0x2F) 0x2E"

section \<open>\<open>datetime\<close>\<close>

text \<open>
  Both scripts build every \<open>datetime\<close> from a year, a month and a day, so the time of day
  is always midnight and the record keeps the date fields only. The constructor raises
  \<open>ValueError\<close> outside the years 1 to 9999, the months 1 to 12 and the days of the
  month in that year. \<open>toordinal\<close> counts days from 0001-01-01 as day 1, and the
  \<open>days\<close> of the difference of two midnights is the difference of their ordinals.
\<close>

record datetime =
  dt_year :: int
  dt_month :: int
  dt_day :: int

definition is_leap :: "int \<Rightarrow> bool" where
  "is_leap y = (y mod 4 = 0 \<and> (y mod 100 \<noteq> 0 \<or> y mod 400 = 0))"

definition DAYS_IN_MONTH :: "int list" where
  "DAYS_IN_MONTH = [- 1, 31, 28, 31, 30, 31, 30, 31, 31, 30, 31, 30, 31]"

definition DAYS_BEFORE_MONTH :: "int list" where
  "DAYS_BEFORE_MONTH = [- 1, 0, 31, 59, 90, 120, 151, 181, 212, 243, 273, 304, 334]"

definition days_in_month :: "int \<Rightarrow> int \<Rightarrow> int" where
  "days_in_month y m = (if m = 2 \<and> is_leap y then 29 else DAYS_IN_MONTH ! nat m)"

definition days_before_year :: "int \<Rightarrow> int" where
  "days_before_year year =
     (let y = year - 1 in y * 365 + y div 4 - y div 100 + y div 400)"

definition days_before_month :: "int \<Rightarrow> int \<Rightarrow> int" where
  "days_before_month y m = DAYS_BEFORE_MONTH ! nat m + (if m > 2 \<and> is_leap y then 1 else 0)"

definition mk_datetime :: "int \<Rightarrow> int \<Rightarrow> int \<Rightarrow> error + datetime" where
  "mk_datetime y m d =
     (if \<not> (1 \<le> y \<and> y \<le> 9999) then Inl ValueError
      else if \<not> (1 \<le> m \<and> m \<le> 12) then Inl ValueError
      else if \<not> (1 \<le> d \<and> d \<le> days_in_month y m) then Inl ValueError
      else Inr \<lparr>dt_year = y, dt_month = m, dt_day = d\<rparr>)"

definition toordinal :: "datetime \<Rightarrow> int" where
  "toordinal t =
     days_before_year (dt_year t) + days_before_month (dt_year t) (dt_month t) + dt_day t"

definition dt_less :: "datetime \<Rightarrow> datetime \<Rightarrow> bool" where
  "dt_less a b =
     (dt_year a < dt_year b
      \<or> (dt_year a = dt_year b
          \<and> (dt_month a < dt_month b \<or> (dt_month a = dt_month b \<and> dt_day a < dt_day b))))"

definition sub_days :: "datetime \<Rightarrow> datetime \<Rightarrow> int" where
  "sub_days a b = toordinal a - toordinal b"

section \<open>The extractors\<close>

text \<open>
  \<open>_is_valid_date\<close> is the same function in both scripts. A \<open>ValueError\<close> of \<open>int\<close> is
  caught and gives \<open>False\<close>.
\<close>

definition is_valid_date :: "arg \<Rightarrow> arg \<Rightarrow> arg \<Rightarrow> bool" where
  "is_valid_date year month day =
     (case py_int year of Inl e \<Rightarrow> False | Inr y \<Rightarrow>
      case py_int month of Inl e \<Rightarrow> False | Inr m \<Rightarrow>
      case py_int day of Inl e \<Rightarrow> False | Inr d \<Rightarrow>
        if y < 2000 \<or> y > 2099 then False
        else if m < 1 \<or> m > 12 then False
        else if d < 1 \<or> d > 31 then False
        else True)"

text \<open>
  \<open>add_baby_age_to_photos.extract_date_from_filename\<close>. The result is \<open>Inl ValueError\<close>
  when the call raises, \<open>Inr None\<close> for \<open>None\<close> and \<open>Inr (Some t)\<close> for a \<open>datetime\<close>.
  The loop over the one delimited pattern returns from inside only when the match is
  valid; otherwise control reaches the second method. Unpacking \<open>match.groups()\<close> into
  three names raises \<open>ValueError\<close> for any other number of groups, and \<open>match.group(2)\<close>
  raises \<open>IndexError\<close> without a second group; the patterns have three and two groups.
\<close>

definition age_contiguous :: "str \<Rightarrow> error + datetime option" where
  "age_contiguous name_without_ext =
     (case re_search contiguous_pattern name_without_ext of
        None \<Rightarrow> Inr None
      | Some [g1, month_day] \<Rightarrow>
          (case py_int (StrArg g1) of Inl e \<Rightarrow> Inl e | Inr year \<Rightarrow>
           case py_int (StrArg (take 2 month_day)) of Inl e \<Rightarrow> Inl e | Inr month \<Rightarrow>
           case py_int (StrArg (drop 2 month_day)) of Inl e \<Rightarrow> Inl e | Inr day \<Rightarrow>
             if is_valid_date (IntArg year) (IntArg month) (IntArg day)
             then map_sum id Some (mk_datetime year month day)
             else Inr None)
      | Some _ \<Rightarrow> Inl IndexError)"

definition age_extract_date_from_filename :: "os \<Rightarrow> str \<Rightarrow> error + datetime option" where
  "age_extract_date_from_filename platform filename =
     (let name_without_ext = fst (splitext platform filename) in
      case re_search delimited_pattern name_without_ext of
        None \<Rightarrow> age_contiguous name_without_ext
      | Some [year, month, day] \<Rightarrow>
          if is_valid_date (StrArg year) (StrArg month) (StrArg day)
          then (case py_int (StrArg year) of Inl e \<Rightarrow> Inl e | Inr y \<Rightarrow>
                case py_int (StrArg month) of Inl e \<Rightarrow> Inl e | Inr m \<Rightarrow>
                case py_int (StrArg day) of Inl e \<Rightarrow> Inl e | Inr d \<Rightarrow>
                  map_sum id Some (mk_datetime y m d))
          else age_contiguous name_without_ext
      | Some _ \<Rightarrow> Inl ValueError)"

text \<open>
  \<open>add_timestamp_to_photos.extract_date_from_filename\<close> keeps the matched texts and
  returns them joined by dots.
\<close>

definition ts_contiguous :: "str \<Rightarrow> error + str option" where
  "ts_contiguous name_without_ext =
     (case re_search contiguous_pattern name_without_ext of
        None \<Rightarrow> Inr None
      | Some [year, month_day] \<Rightarrow>
          (let month = take 2 month_day; day = drop 2 month_day in
           if is_valid_date (StrArg year) (StrArg month) (StrArg day)
           then Inr (Some (year @ [0x2E] @ month @ [0x2E] @ day))
           else Inr None)
      | Some _ \<Rightarrow> Inl IndexError)"

definition ts_extract_date_from_filename :: "os \<Rightarrow> str \<Rightarrow> error + str option" where
  "ts_extract_date_from_filename platform filename =
     (let name_without_ext = fst (splitext platform filename) in
      case re_search delimited_pattern name_without_ext of
        None \<Rightarrow> ts_contiguous name_without_ext
      | Some [year, month, day] \<Rightarrow>
          if is_valid_date (StrArg year) (StrArg month) (StrArg day)
          then Inr (Some (year @ [0x2E] @ month @ [0x2E] @ day))
          else ts_contiguous name_without_ext
      | Some _ \<Rightarrow> Inl ValueError)"

section \<open>\<open>calculate_age\<close>\<close>

definition BIRTH_DATE :: datetime where
  "BIRTH_DATE = \<lparr>dt_year = 2025, dt_month = 9, dt_day = 2\<rparr>"

text \<open>
  The branch after birth up to the conversion into months: the total of months and the
  days left, after both borrowing steps.
\<close>

definition months_and_days :: "datetime \<Rightarrow> int \<times> int" where
  "months_and_days photo_date =
     (let years = dt_year photo_date - dt_year BIRTH_DATE;
          months = dt_month photo_date - dt_month BIRTH_DATE;
          days = dt_day photo_date - dt_day BIRTH_DATE;
          (months, days) =
            (if days < 0
             then (let (prev_month, prev_year) =
                         (if dt_month photo_date = 1 then (12, dt_year photo_date - 1)
                          else (dt_month photo_date - 1, dt_year photo_date));
                       days_in_prev_month =
                         (if prev_month \<in> set [1, 3, 5, 7, 8, 10, 12] then 31
                          else if prev_month \<in> set [4, 6, 9, 11] then 30
                          else if (prev_year mod 4 = 0 \<and> prev_year mod 100 \<noteq> 0)
                                  \<or> prev_year mod 400 = 0 then 29
                          else 28)
                   in (months - 1, days_in_prev_month + days))
             else (months, days));
          (months, years) = (if months < 0 then (months + 12, years - 1) else (months, years));
          total_months = years * 12 + months
      in (total_months, days))"

text \<open>
  The labels: U+8DDD U+79BB U+51FA U+751F n U+5929 before birth, and after it the days
  followed by U+5929, the months followed by U+4E2A U+6708, or both.
\<close>

definition calculate_age :: "datetime \<Rightarrow> str" where
  "calculate_age photo_date =
     (if dt_less photo_date BIRTH_DATE
      then (let days_before = sub_days BIRTH_DATE photo_date in
            [0x8DDD, 0x79BB, 0x51FA, 0x751F] @ py_str days_before @ [0x5929])
      else (let (total_months, days) = months_and_days photo_date in
            if total_months = 0 then py_str days @ [0x5929]
            else if days = 0 then py_str total_months @ [0x4E2A, 0x6708]
            else py_str total_months @ [0x4E2A, 0x6708] @ py_str days @ [0x5929]))"

section \<open>Reference definitions from the specification\<close>

text \<open>
  The age description as the specification words it, for a photo date on or after the
  reference date: raw differences, a day borrowed from the month before the photo's month
  (its length from the standard table, February by the leap rule of the year that owns
  it), a month borrowed from the year, the total of months, and the three renderings.
\<close>

definition spec_describe :: "datetime \<Rightarrow> datetime \<Rightarrow> str" where
  "spec_describe photoDate referenceDate =
     (let years = dt_year photoDate - dt_year referenceDate;
          months = dt_month photoDate - dt_month referenceDate;
          days = dt_day photoDate - dt_day referenceDate;
          owner = (if dt_month photoDate = 1 then dt_year photoDate - 1 else dt_year photoDate);
          preceding = (if dt_month photoDate = 1 then 12 else dt_month photoDate - 1);
          borrow_day = (days < 0);
          months = (if borrow_day then months - 1 else months);
          days = (if borrow_day then days + days_in_month owner preceding else days);
          borrow_month = (months < 0);
          years = (if borrow_month then years - 1 else years);
          months = (if borrow_month then months + 12 else months);
          totalMonths = years * 12 + months
      in if totalMonths = 0 then py_str days @ [0x5929]
         else if days = 0 then py_str totalMonths @ [0x4E2A, 0x6708]
         else py_str totalMonths @ [0x4E2A, 0x6708] @ py_str days @ [0x5929])"

text \<open>
  The date format of the specification: the year, and the month and the day padded with
  zeros to two digits, joined by dots.
\<close>

definition zero_pad2 :: "int \<Rightarrow> str" where
  "zero_pad2 n = replicate (2 - length (py_str n)) 0x30 @ py_str n"

definition spec_format :: "int \<Rightarrow> int \<Rightarrow> int \<Rightarrow> str" where
  "spec_format y m d = py_str y @ [0x2E] @ zero_pad2 m @ [0x2E] @ zero_pad2 d"

text \<open>
  Elapsed calendar days are counted in steps of one day: the day after a date in the
  Gregorian calendar.
\<close>

definition calendar_next_day :: "datetime \<Rightarrow> datetime" where
  "calendar_next_day t =
     (if dt_day t < days_in_month (dt_year t) (dt_month t)
      then \<lparr>dt_year = dt_year t, dt_month = dt_month t, dt_day = dt_day t + 1\<rparr>
      else if dt_month t < 12
      then \<lparr>dt_year = dt_year t, dt_month = dt_month t + 1, dt_day = 1\<rparr>
      else \<lparr>dt_year = dt_year t + 1, dt_month = 1, dt_day = 1\<rparr>)"

text \<open>A constructed \<open>datetime\<close>: the constructor accepts its fields.\<close>

definition constructed :: "datetime \<Rightarrow> bool" where
  "constructed t = (mk_datetime (dt_year t) (dt_month t) (dt_day t) = Inr t)"

section \<open>Facts about the matcher and the library functions\<close>

subsection \<open>Matches and their groups\<close>

lemma match_classes_shape:
  "match_classes ks s = Some (t, r) \<Longrightarrow> s = t @ r \<and> list_all2 cls_match ks t"
  by (induction ks s arbitrary: t r rule: match_classes.induct)
     (auto split: if_splits option.splits)

lemma re_search_match_at:
  "re_search ps s = Some gs \<Longrightarrow> \<exists>s'. match_at ps s' = Some gs"
  by (induction s) (auto split: option.splits)

lemma decimal_ascii: "48 \<le> c \<Longrightarrow> c \<le> 57 \<Longrightarrow> decimal c = Some (c - 48)"
  by (simp add: decimal_def decimal_zeros_def)

lemma decimal_below_128: "c < 128 \<Longrightarrow> decimal c = Some v \<Longrightarrow> 48 \<le> c \<and> c \<le> 57 \<and> v = c - 48"
  by (simp add: decimal_def decimal_zeros_def split: if_splits)

lemma delimited_match_groups:
  assumes "match_at delimited_pattern s = Some gs"
  shows "\<exists>y m d. gs = [y, m, d] \<and> length y = 4 \<and> length m = 2 \<and> length d = 2
           \<and> (\<forall>c\<in>set (y @ m @ d). decimal c \<noteq> None)"
  using assms
  by (auto simp: delimited_pattern_def list_all2_Cons1 split: option.splits
           dest!: match_classes_shape)

lemma contiguous_match_groups:
  assumes "match_at contiguous_pattern s = Some gs"
  shows "\<exists>y md. gs = [y, md] \<and> length y = 4 \<and> length md = 4
           \<and> (\<forall>c\<in>set (y @ md). decimal c \<noteq> None)"
  using assms
  by (auto simp: contiguous_pattern_def list_all2_Cons1 decimal_ascii split: option.splits
           dest!: match_classes_shape)

lemma delimited_search_groups:
  "re_search delimited_pattern s = Some gs \<Longrightarrow>
     \<exists>y m d. gs = [y, m, d] \<and> length y = 4 \<and> length m = 2 \<and> length d = 2
           \<and> (\<forall>c\<in>set (y @ m @ d). decimal c \<noteq> None)"
  using re_search_match_at delimited_match_groups by blast

lemma contiguous_search_groups:
  "re_search contiguous_pattern s = Some gs \<Longrightarrow>
     \<exists>y md. gs = [y, md] \<and> length y = 4 \<and> length md = 4
           \<and> (\<forall>c\<in>set (y @ md). decimal c \<noteq> None)"
  using re_search_match_at contiguous_match_groups by blast

lemma int_digits_total:
  "\<forall>c\<in>set s. decimal c \<noteq> None \<Longrightarrow> \<exists>n. int_digits acc s = Inr n"
  by (induction s arbitrary: acc) (auto split: option.splits)

lemma py_int_digits:
  "s \<noteq> [] \<Longrightarrow> \<forall>c\<in>set s. decimal c \<noteq> None \<Longrightarrow> \<exists>n. py_int (StrArg s) = Inr n"
  using int_digits_total by simp

lemma is_valid_date_values:
  "py_int a = Inr y \<Longrightarrow> py_int b = Inr m \<Longrightarrow> py_int c = Inr d \<Longrightarrow>
   is_valid_date a b c = (2000 \<le> y \<and> y \<le> 2099 \<and> 1 \<le> m \<and> m \<le> 12 \<and> 1 \<le> d \<and> d \<le> 31)"
  by (auto simp: is_valid_date_def)

lemma mk_datetime_fields:
  "mk_datetime y m d = Inr t \<Longrightarrow> dt_year t = y \<and> dt_month t = m \<and> dt_day t = d"
  by (auto simp: mk_datetime_def split: if_splits)

text \<open>What the delimited rule does with a match: return (or raise) when valid.\<close>

lemma age_delimited_valid:
  assumes "re_search delimited_pattern (fst (splitext p fn)) = Some [Y, M, D]"
    and "py_int (StrArg Y) = Inr y" "py_int (StrArg M) = Inr m" "py_int (StrArg D) = Inr d"
    and "is_valid_date (StrArg Y) (StrArg M) (StrArg D)"
  shows "age_extract_date_from_filename p fn = map_sum id Some (mk_datetime y m d)"
  using assms by (simp add: age_extract_date_from_filename_def)

lemma ts_delimited_valid:
  assumes "re_search delimited_pattern (fst (splitext p fn)) = Some [Y, M, D]"
    and "is_valid_date (StrArg Y) (StrArg M) (StrArg D)"
  shows "ts_extract_date_from_filename p fn = Inr (Some (Y @ [0x2E] @ M @ [0x2E] @ D))"
  using assms by (simp add: ts_extract_date_from_filename_def)

lemma age_fall_through:
  assumes "re_search delimited_pattern (fst (splitext p fn)) = None
           \<or> (\<exists>Y M D. re_search delimited_pattern (fst (splitext p fn)) = Some [Y, M, D]
                 \<and> \<not> is_valid_date (StrArg Y) (StrArg M) (StrArg D))"
  shows "age_extract_date_from_filename p fn = age_contiguous (fst (splitext p fn))"
  using assms by (auto simp: age_extract_date_from_filename_def)

lemma ts_fall_through:
  assumes "re_search delimited_pattern (fst (splitext p fn)) = None
           \<or> (\<exists>Y M D. re_search delimited_pattern (fst (splitext p fn)) = Some [Y, M, D]
                 \<and> \<not> is_valid_date (StrArg Y) (StrArg M) (StrArg D))"
  shows "ts_extract_date_from_filename p fn = ts_contiguous (fst (splitext p fn))"
  using assms by (auto simp: ts_extract_date_from_filename_def)

lemma age_contiguous_cases:
  "(re_search contiguous_pattern s = None \<and> age_contiguous s = Inr None)
   \<or> (\<exists>Y MD y m d. re_search contiguous_pattern s = Some [Y, MD]
         \<and> length Y = 4 \<and> length MD = 4 \<and> (\<forall>c\<in>set (Y @ MD). decimal c \<noteq> None)
         \<and> py_int (StrArg Y) = Inr y \<and> py_int (StrArg (take 2 MD)) = Inr m
         \<and> py_int (StrArg (drop 2 MD)) = Inr d
         \<and> age_contiguous s =
             (if is_valid_date (StrArg Y) (StrArg (take 2 MD)) (StrArg (drop 2 MD))
              then map_sum id Some (mk_datetime y m d) else Inr None))"
proof (cases "re_search contiguous_pattern s")
  case None
  then show ?thesis by (simp add: age_contiguous_def)
next
  case (Some gs)
  then obtain Y MD where g: "gs = [Y, MD]" "length Y = 4" "length MD = 4"
      "\<forall>c\<in>set (Y @ MD). decimal c \<noteq> None"
    using contiguous_search_groups by blast
  have "\<forall>c\<in>set (take 2 MD). decimal c \<noteq> None" "\<forall>c\<in>set (drop 2 MD). decimal c \<noteq> None"
    using g(4) by (auto dest: in_set_takeD in_set_dropD)
  moreover have "Y \<noteq> []" "take 2 MD \<noteq> []" "drop 2 MD \<noteq> []" using g(2,3) by auto
  ultimately obtain y m d where v: "py_int (StrArg Y) = Inr y"
      "py_int (StrArg (take 2 MD)) = Inr m" "py_int (StrArg (drop 2 MD)) = Inr d"
    using g(4) py_int_digits by (metis Un_iff set_append)
  have "is_valid_date (IntArg y) (IntArg m) (IntArg d)
        = is_valid_date (StrArg Y) (StrArg (take 2 MD)) (StrArg (drop 2 MD))"
    using v by (simp add: is_valid_date_def)
  then have "age_contiguous s =
             (if is_valid_date (StrArg Y) (StrArg (take 2 MD)) (StrArg (drop 2 MD))
              then map_sum id Some (mk_datetime y m d) else Inr None)"
    using Some g(1) v by (simp add: age_contiguous_def)
  then show ?thesis using Some g v by blast
qed

lemma ts_contiguous_eq:
  "ts_contiguous s =
     (case re_search contiguous_pattern s of
        None \<Rightarrow> Inr None
      | Some gs \<Rightarrow>
          if is_valid_date (StrArg (gs ! 0)) (StrArg (take 2 (gs ! 1))) (StrArg (drop 2 (gs ! 1)))
          then Inr (Some (gs ! 0 @ [0x2E] @ take 2 (gs ! 1) @ [0x2E] @ drop 2 (gs ! 1)))
          else Inr None)"
proof (cases "re_search contiguous_pattern s")
  case None
  then show ?thesis by (simp add: ts_contiguous_def)
next
  case (Some gs)
  then obtain Y MD where "gs = [Y, MD]" using contiguous_search_groups by blast
  then show ?thesis using Some by (simp add: ts_contiguous_def)
qed

subsection \<open>Evaluation, and the parts of a split name\<close>

lemmas extract_eval =
  ascii_def splitext_generic_def skip_leading_dots.simps delimited_pattern_def
  contiguous_pattern_def decimal_def decimal_zeros_def is_valid_date_def
  age_extract_date_from_filename_def ts_extract_date_from_filename_def age_contiguous_def
  ts_contiguous_def mk_datetime_def days_in_month_def DAYS_IN_MONTH_def is_leap_def

lemma rfind_ge: "- 1 \<le> rfind c s"
  by (induction s) (auto simp: Let_def)

lemma rfind_absent: "rfind c s < 0 \<Longrightarrow> c \<notin> set s"
  by (induction s) (auto simp: Let_def split: if_splits)

lemma rfind_last:
  "0 \<le> rfind c s \<Longrightarrow> \<exists>e. drop (nat (rfind c s)) s = c # e \<and> c \<notin> set e"
proof (induction s)
  case Nil
  then show ?case by simp
next
  case (Cons x xs)
  show ?case
  proof (cases "0 \<le> rfind c xs")
    case True
    then have "nat (rfind c (x # xs)) = Suc (nat (rfind c xs))"
      by (simp add: Let_def nat_add_distrib)
    then show ?thesis using Cons.IH [OF True] by simp
  next
    case False
    then have "c \<notin> set xs" using rfind_absent [of c xs] by simp
    moreover have "x = c" and z: "rfind c (x # xs) = 0"
      using False Cons.prems by (auto simp: Let_def split: if_splits)
    ultimately have "drop (nat 0) (x # xs) = c # xs \<and> c \<notin> set xs" by simp
    then show ?thesis unfolding z by blast
  qed
qed

lemma splitext_generic_parts:
  "fst (splitext_generic s sep altsep ext) @ snd (splitext_generic s sep altsep ext) = s
   \<and> (snd (splitext_generic s sep altsep ext) = []
        \<or> (\<exists>e. snd (splitext_generic s sep altsep ext) = ext # e \<and> ext \<notin> set e))"
proof -
  have "0 \<le> rfind ext s \<Longrightarrow> \<exists>e. drop (nat (rfind ext s)) s = ext # e \<and> ext \<notin> set e"
    by (rule rfind_last)
  moreover have "- 1 \<le> rfind sep s" by (rule rfind_ge)
  ultimately show ?thesis
    by (auto simp: splitext_generic_def Let_def max_def split: option.splits)
qed

subsection \<open>The borrowing steps\<close>

lemma code_month_table:
  assumes "1 \<le> m" "m \<le> 12"
  shows "(if m \<in> set [1, 3, 5, 7, 8, 10, 12] then 31
          else if m \<in> set [4, 6, 9, 11] then 30
          else if (y mod 4 = 0 \<and> y mod 100 \<noteq> 0) \<or> y mod 400 = 0 then 29
          else 28) = days_in_month y (m::int)"
proof -
  have "m = 1 \<or> m = 2 \<or> m = 3 \<or> m = 4 \<or> m = 5 \<or> m = 6 \<or> m = 7 \<or> m = 8 \<or> m = 9
        \<or> m = 10 \<or> m = 11 \<or> m = 12"
    using assms by arith
  then show ?thesis
    by (auto simp: days_in_month_def DAYS_IN_MONTH_def is_leap_def)
qed

lemma days_in_month_range:
  assumes "1 \<le> m" "m \<le> 12"
  shows "28 \<le> days_in_month y m \<and> days_in_month y m \<le> 31"
proof -
  have "m = 1 \<or> m = 2 \<or> m = 3 \<or> m = 4 \<or> m = 5 \<or> m = 6 \<or> m = 7 \<or> m = 8 \<or> m = 9
        \<or> m = 10 \<or> m = 11 \<or> m = 12"
    using assms by arith
  then show ?thesis
    by (auto simp: days_in_month_def DAYS_IN_MONTH_def)
qed

text \<open>The two borrowing steps in closed form.\<close>

lemma months_and_days_closed:
  assumes "1 \<le> dt_month t" "dt_month t \<le> 12"
  shows "months_and_days t =
     ((dt_year t - 2025) * 12 + (dt_month t - 9) - (if dt_day t < 2 then 1 else 0),
      if dt_day t < 2
      then dt_day t - 2 + (if dt_month t = 1 then 31 else days_in_month (dt_year t) (dt_month t - 1))
      else dt_day t - 2)"
proof (cases "dt_month t = 1")
  case True
  then show ?thesis
    by (simp add: months_and_days_def BIRTH_DATE_def Let_def)
next
  case False
  then have r: "1 \<le> dt_month t - 1" "dt_month t - 1 \<le> 12" using assms by auto
  show ?thesis using False code_month_table [OF r, of "dt_year t"]
    by (simp add: months_and_days_def BIRTH_DATE_def Let_def)
qed

lemma months_and_days_bounds:
  assumes "\<not> dt_less t BIRTH_DATE" "1 \<le> dt_month t" "dt_month t \<le> 12"
    "1 \<le> dt_day t" "dt_day t \<le> 31"
  shows "0 \<le> fst (months_and_days t) \<and> 0 \<le> snd (months_and_days t) \<and> snd (months_and_days t) < 31"
proof -
  have L: "dt_month t \<noteq> 1 \<Longrightarrow> 28 \<le> days_in_month (dt_year t) (dt_month t - 1)
        \<and> days_in_month (dt_year t) (dt_month t - 1) \<le> 31"
    using assms(2,3) days_in_month_range [of "dt_month t - 1" "dt_year t"] by simp
  have o: "2025 < dt_year t \<or> (dt_year t = 2025 \<and> (9 < dt_month t \<or> (dt_month t = 9 \<and> 2 \<le> dt_day t)))"
    using assms(1) by (auto simp: dt_less_def BIRTH_DATE_def)
  have a: "0 \<le> fst (months_and_days t)"
    using o assms(2-5) by (auto simp: months_and_days_closed [OF assms(2,3)])
  have b: "0 \<le> snd (months_and_days t) \<and> snd (months_and_days t) < 31"
    using L assms(2-5) by (auto simp: months_and_days_closed [OF assms(2,3)])
  show ?thesis using a b by simp
qed

lemma spec_describe_closed:
  "spec_describe t BIRTH_DATE =
     (let tm = (dt_year t - 2025) * 12 + (dt_month t - 9) - (if dt_day t < 2 then 1 else 0);
          d = (if dt_day t < 2
               then dt_day t - 2 + (if dt_month t = 1 then 31 else days_in_month (dt_year t) (dt_month t - 1))
               else dt_day t - 2)
      in if tm = 0 then py_str d @ [0x5929]
         else if d = 0 then py_str tm @ [0x4E2A, 0x6708]
         else py_str tm @ [0x4E2A, 0x6708] @ py_str d @ [0x5929])"
  by (simp add: spec_describe_def BIRTH_DATE_def Let_def days_in_month_def DAYS_IN_MONTH_def)

lemma calculate_age_refines:
  assumes "\<not> dt_less t BIRTH_DATE" "1 \<le> dt_month t" "dt_month t \<le> 12"
  shows "calculate_age t = spec_describe t BIRTH_DATE"
  using assms(1)
  by (simp add: calculate_age_def months_and_days_closed [OF assms(2,3)] spec_describe_closed Let_def)

subsection \<open>Ordinals and the next calendar day\<close>

lemma month_cases:
  "1 \<le> (m::int) \<Longrightarrow> m \<le> 12 \<Longrightarrow>
   m = 1 \<or> m = 2 \<or> m = 3 \<or> m = 4 \<or> m = 5 \<or> m = 6 \<or> m = 7 \<or> m = 8 \<or> m = 9
     \<or> m = 10 \<or> m = 11 \<or> m = 12"
  by arith

lemma constructed_iff:
  "constructed t \<longleftrightarrow>
     1 \<le> dt_year t \<and> dt_year t \<le> 9999 \<and> 1 \<le> dt_month t \<and> dt_month t \<le> 12
     \<and> 1 \<le> dt_day t \<and> dt_day t \<le> days_in_month (dt_year t) (dt_month t)"
  by (auto simp: constructed_def mk_datetime_def)

lemma days_before_month_next:
  assumes "1 \<le> m" "m < 12"
  shows "days_before_month y (m + 1) = days_before_month y m + days_in_month y m"
proof -
  have "m = 1 \<or> m = 2 \<or> m = 3 \<or> m = 4 \<or> m = 5 \<or> m = 6 \<or> m = 7 \<or> m = 8 \<or> m = 9
     \<or> m = 10 \<or> m = 11"
    using assms by arith
  then show ?thesis
    by (auto simp: days_before_month_def days_in_month_def DAYS_BEFORE_MONTH_def
        DAYS_IN_MONTH_def)
qed

lemma days_before_month_december:
  "days_before_month y 12 + 31 = 365 + (if is_leap y then 1 else 0)"
  by (simp add: days_before_month_def DAYS_BEFORE_MONTH_def)

lemma days_before_month_january: "days_before_month y 1 = 0"
  by (simp add: days_before_month_def DAYS_BEFORE_MONTH_def)

lemma days_in_month_december: "days_in_month y 12 = 31"
  by (simp add: days_in_month_def DAYS_IN_MONTH_def)

lemma days_in_month_ge: "1 \<le> m \<Longrightarrow> m \<le> 12 \<Longrightarrow> 28 \<le> days_in_month y m"
  using days_in_month_range by blast

lemma div_pred:
  assumes "0 < (k::int)"
  shows "y div k = (y - 1) div k + (if y mod k = 0 then 1 else 0)"
proof (cases "y mod k = 0")
  case True
  then have "k * (y div k) = y" by (simp add: mod_eq_0_iff_dvd)
  then have "y - 1 = k * (y div k - 1) + (k - 1)"
    by (simp add: algebra_simps)
  then have "(y - 1) div k = y div k - 1"
    using assms int_div_pos_eq [of "y - 1" k "y div k - 1" "k - 1"] by simp
  then show ?thesis using True by simp
next
  case False
  have e: "y - 1 = k * (y div k) + (y mod k - 1)"
    by (simp add: algebra_simps)
  have "0 \<le> y mod k" "y mod k < k"
    using assms by (simp_all add: pos_mod_sign pos_mod_bound)
  then have "0 \<le> y mod k - 1" "y mod k - 1 < k"
    using False by simp_all
  then have "(y - 1) div k = y div k"
    using e int_div_pos_eq [of "y - 1" k "y div k" "y mod k - 1"] by simp
  then show ?thesis using False by simp
qed

lemma days_before_year_next:
  "days_before_year (y + 1) = days_before_year y + 365 + (if is_leap y then 1 else 0)"
proof -
  define q4 q100 q400 where "q4 = (y - 1) div 4" and "q100 = (y - 1) div 100"
    and "q400 = (y - 1) div 400"
  define l4 l100 l400 where "l4 = (y mod 4 = 0)" and "l100 = (y mod 100 = 0)"
    and "l400 = (y mod 400 = 0)"
  have a: "y div 4 = q4 + (if l4 then 1 else 0)"
    unfolding q4_def l4_def by (rule div_pred) simp
  have b: "y div 100 = q100 + (if l100 then 1 else 0)"
    unfolding q100_def l100_def by (rule div_pred) simp
  have c: "y div 400 = q400 + (if l400 then 1 else 0)"
    unfolding q400_def l400_def by (rule div_pred) simp
  have d: "l400 \<Longrightarrow> l100"
    unfolding l400_def l100_def using mod_mod_cancel [of 100 400 y] by simp
  have e: "l100 \<Longrightarrow> l4"
    unfolding l100_def l4_def using mod_mod_cancel [of 4 100 y] by simp
  have lhs: "days_before_year (y + 1) = y * 365 + y div 4 - y div 100 + y div 400"
    by (simp add: days_before_year_def Let_def)
  have rhs: "days_before_year y = (y - 1) * 365 + q4 - q100 + q400"
    by (simp add: days_before_year_def Let_def q4_def q100_def q400_def)
  have leap: "is_leap y = (l4 \<and> (\<not> l100 \<or> l400))"
    by (simp add: is_leap_def l4_def l100_def l400_def)
  show ?thesis
    unfolding lhs rhs leap a b c using d e
    by (cases l4; cases l100; cases l400; simp add: algebra_simps)
qed

lemma toordinal_next_day:
  assumes "constructed t"
  shows "toordinal (calendar_next_day t) = toordinal t + 1"
proof -
  have r: "1 \<le> dt_month t" "dt_month t \<le> 12" "1 \<le> dt_day t"
      "dt_day t \<le> days_in_month (dt_year t) (dt_month t)"
    using assms by (simp_all add: constructed_iff)
  show ?thesis
  proof (cases "dt_day t < days_in_month (dt_year t) (dt_month t)")
    case True
    then show ?thesis by (simp add: calendar_next_day_def toordinal_def)
  next
    case False
    then have d: "dt_day t = days_in_month (dt_year t) (dt_month t)" using r(4) by simp
    show ?thesis
    proof (cases "dt_month t < 12")
      case True
      then show ?thesis
        using False d days_before_month_next [OF r(1) True, of "dt_year t"]
        by (simp add: calendar_next_day_def toordinal_def)
    next
      case False
      then have m: "dt_month t = 12" using r(2) by simp
      then have "dt_day t = 31" using d by (simp add: days_in_month_december)
      then show ?thesis
        using m days_before_year_next [of "dt_year t"] days_before_month_december [of "dt_year t"]
        by (simp add: calendar_next_day_def toordinal_def days_in_month_december
            days_before_month_january)
    qed
  qed
qed

lemma constructed_next_day:
  assumes "constructed t" "dt_year t < 9999"
  shows "constructed (calendar_next_day t)"
proof -
  have r: "1 \<le> dt_year t" "1 \<le> dt_month t" "dt_month t \<le> 12" "1 \<le> dt_day t"
      "dt_day t \<le> days_in_month (dt_year t) (dt_month t)"
    using assms by (simp_all add: constructed_iff)
  have a: "dt_month t < 12 \<Longrightarrow> 28 \<le> days_in_month (dt_year t) (dt_month t + 1)"
    using r(2) days_in_month_ge [of "dt_month t + 1" "dt_year t"] by simp
  have b: "28 \<le> days_in_month (dt_year t + 1) 1"
    using days_in_month_ge [of 1 "dt_year t + 1"] by simp
  show ?thesis
    using r assms(2) a b by (auto simp: constructed_iff calendar_next_day_def)
qed

lemma next_day_towards_birth:
  assumes "constructed t" "dt_less t BIRTH_DATE"
  shows "calendar_next_day t = BIRTH_DATE \<or> dt_less (calendar_next_day t) BIRTH_DATE"
proof -
  have r: "1 \<le> dt_month t" "dt_month t \<le> 12" "1 \<le> dt_day t"
      "dt_day t \<le> days_in_month (dt_year t) (dt_month t)"
    using assms(1) by (simp_all add: constructed_iff)
  have s: "days_in_month 2025 9 = 30" "days_in_month 2025 8 = 31"
    by (simp_all add: days_in_month_def DAYS_IN_MONTH_def)
  show ?thesis
    using assms(2) r s
    by (auto simp: dt_less_def BIRTH_DATE_def calendar_next_day_def)
qed

text \<open>
  Towards the birth date every step shrinks a linear measure of the distance, on which
  the count of steps is built by induction.
\<close>

lemma next_day_gap:
  assumes "constructed t" "dt_less t BIRTH_DATE"
  shows "nat ((2025 - dt_year (calendar_next_day t)) * 372
              + (9 - dt_month (calendar_next_day t)) * 31 + (2 - dt_day (calendar_next_day t)))
         < nat ((2025 - dt_year t) * 372 + (9 - dt_month t) * 31 + (2 - dt_day t))"
proof -
  have r: "1 \<le> dt_month t" "dt_month t \<le> 12" "1 \<le> dt_day t"
      "dt_day t \<le> days_in_month (dt_year t) (dt_month t)"
    using assms(1) by (simp_all add: constructed_iff)
  have u: "days_in_month (dt_year t) (dt_month t) \<le> 31"
    using days_in_month_range [OF r(1,2)] by simp
  have p: "0 < (2025 - dt_year t) * 372 + (9 - dt_month t) * 31 + (2 - dt_day t)"
    using assms(2) r u by (auto simp: dt_less_def BIRTH_DATE_def)
  show ?thesis
    using p r u by (auto simp: calendar_next_day_def)
qed

lemma elapsed_days_to_birth:
  "constructed t \<Longrightarrow> dt_less t BIRTH_DATE \<Longrightarrow>
   \<exists>n. 0 < n \<and> (calendar_next_day ^^ n) t = BIRTH_DATE
       \<and> toordinal BIRTH_DATE = toordinal t + int n
       \<and> (\<forall>k<n. (calendar_next_day ^^ k) t \<noteq> BIRTH_DATE)"
proof (induction t rule: measure_induct_rule [where f = "\<lambda>t. nat ((2025 - dt_year t) * 372
          + (9 - dt_month t) * 31 + (2 - dt_day t))"])
  case (less t)
  let ?s = "calendar_next_day t"
  have ord: "toordinal ?s = toordinal t + 1"
    using less.prems(1) by (rule toordinal_next_day)
  have ne: "t \<noteq> BIRTH_DATE"
    using less.prems(2) by (auto simp: dt_less_def)
  consider "?s = BIRTH_DATE" | "dt_less ?s BIRTH_DATE"
    using next_day_towards_birth [OF less.prems] by blast
  then show ?case
  proof cases
    case 1
    have "0 < (1::nat) \<and> (calendar_next_day ^^ 1) t = BIRTH_DATE
       \<and> toordinal BIRTH_DATE = toordinal t + int 1
       \<and> (\<forall>k<1. (calendar_next_day ^^ k) t \<noteq> BIRTH_DATE)"
      using 1 ord ne by simp
    then show ?thesis by blast
  next
    case 2
    have "dt_year t < 9999"
      using less.prems(2) by (auto simp: dt_less_def BIRTH_DATE_def)
    then have c: "constructed ?s"
      using less.prems(1) constructed_next_day by blast
    obtain n where n: "0 < n" "(calendar_next_day ^^ n) ?s = BIRTH_DATE"
        "toordinal BIRTH_DATE = toordinal ?s + int n"
        "\<forall>k<n. (calendar_next_day ^^ k) ?s \<noteq> BIRTH_DATE"
      using less.IH [OF next_day_gap [OF less.prems] c 2] by blast
    have a: "(calendar_next_day ^^ Suc n) t = BIRTH_DATE"
      using n(2) by (simp add: funpow_swap1)
    have b: "toordinal BIRTH_DATE = toordinal t + int (Suc n)"
      using n(3) ord by simp
    have "(calendar_next_day ^^ k) t \<noteq> BIRTH_DATE" if "k < Suc n" for k
    proof (cases k)
      case 0
      then show ?thesis using ne by simp
    next
      case (Suc j)
      then have "j < n" using that by simp
      then show ?thesis using n(4) Suc by (simp add: funpow_swap1)
    qed
    then show ?thesis using a b by blast
  qed
qed

subsection \<open>Matched ASCII digits and their rendering\<close>

lemma digits_of_digit: "d < 10 \<Longrightarrow> digits_of d = [48 + d]"
  by (simp add: digits_of.simps)

lemma digits_of_step: "d < 10 \<Longrightarrow> 0 < n \<Longrightarrow> digits_of (10 * n + d) = digits_of n @ [48 + d]"
  by (subst digits_of.simps) simp

lemma ascii_digit_value:
  "48 \<le> c \<Longrightarrow> c \<le> 57 \<Longrightarrow> \<exists>v. decimal c = Some v \<and> v < 10 \<and> c = 48 + v"
  using decimal_ascii [of c] by (intro exI [of _ "c - 48"]) simp

lemma year_text_renders:
  assumes "length Y = 4" "\<forall>c\<in>set Y. 48 \<le> c \<and> c \<le> 57"
    and "py_int (StrArg Y) = Inr y" "1000 \<le> y"
  shows "py_str y = Y"
proof -
  obtain a b c d where Y: "Y = [a, b, c, d]"
    using assms(1) by (auto simp: numeral_eq_Suc length_Suc_conv)
  obtain va vb vc vd where v: "decimal a = Some va" "va < 10" "a = 48 + va"
      "decimal b = Some vb" "vb < 10" "b = 48 + vb"
      "decimal c = Some vc" "vc < 10" "c = 48 + vc"
      "decimal d = Some vd" "vd < 10" "d = 48 + vd"
    using assms(2) Y ascii_digit_value [of a] ascii_digit_value [of b]
      ascii_digit_value [of c] ascii_digit_value [of d] by auto
  define n1 n2 n3 where "n1 = 10 * va + vb" and "n2 = 10 * n1 + vc" and "n3 = 10 * n2 + vd"
  have y: "y = int n3"
    using assms(3) Y v(1,4,7,10) by (simp add: n1_def n2_def n3_def)
  have "0 < va"
    using assms(4) v(2,5,8,11) y by (cases "va = 0") (auto simp: n1_def n2_def n3_def)
  then have p: "0 < n1" "0 < n2" by (simp_all add: n1_def n2_def)
  have "digits_of n1 = digits_of va @ [48 + vb]"
    unfolding n1_def using v(5) \<open>0 < va\<close> by (rule digits_of_step)
  moreover have "digits_of n2 = digits_of n1 @ [48 + vc]"
    unfolding n2_def using v(8) p(1) by (rule digits_of_step)
  moreover have "digits_of n3 = digits_of n2 @ [48 + vd]"
    unfolding n3_def using v(11) p(2) by (rule digits_of_step)
  ultimately have "digits_of n3 = [48 + va, 48 + vb, 48 + vc, 48 + vd]"
    using digits_of_digit [OF v(2)] by simp
  then show ?thesis using y Y v(3,6,9,12) by (simp add: py_str_def)
qed

lemma two_digit_text_renders:
  assumes "length M = 2" "\<forall>c\<in>set M. 48 \<le> c \<and> c \<le> 57" "py_int (StrArg M) = Inr m"
  shows "zero_pad2 m = M"
proof -
  obtain a b where M: "M = [a, b]"
    using assms(1) by (auto simp: numeral_eq_Suc length_Suc_conv)
  obtain va vb where v: "decimal a = Some va" "va < 10" "a = 48 + va"
      "decimal b = Some vb" "vb < 10" "b = 48 + vb"
    using assms(2) M ascii_digit_value [of a] ascii_digit_value [of b] by auto
  define n where "n = 10 * va + vb"
  have m: "m = int n"
    using assms(3) M v(1,4) by (simp add: n_def)
  show ?thesis
  proof (cases "va = 0")
    case True
    then have "digits_of n = [48 + vb]"
      using v(5) by (simp add: n_def digits_of_digit)
    then show ?thesis using True m M v(3,6) by (simp add: zero_pad2_def py_str_def)
  next
    case False
    then have "digits_of n = digits_of va @ [48 + vb]"
      unfolding n_def using v(5) by (intro digits_of_step) simp_all
    then have "digits_of n = [48 + va, 48 + vb]"
      using digits_of_digit [OF v(2)] by simp
    then show ?thesis using m M v(3,6) by (simp add: zero_pad2_def py_str_def)
  qed
qed

lemma date_text_renders:
  assumes "length Y = 4" "length M = 2" "length D = 2"
    and "\<forall>c\<in>set (Y @ M @ D). 48 \<le> c \<and> c \<le> 57"
    and "py_int (StrArg Y) = Inr y" "py_int (StrArg M) = Inr m" "py_int (StrArg D) = Inr d"
    and "1000 \<le> y"
  shows "Y @ [0x2E] @ M @ [0x2E] @ D = spec_format y m d"
  using assms year_text_renders [of Y y] two_digit_text_renders [of M m]
    two_digit_text_renders [of D d]
  by (simp add: spec_format_def)

subsection \<open>The two extractors side by side\<close>

lemma contiguous_rule_cases:
  "(age_contiguous s = Inr None \<and> ts_contiguous s = Inr None)
   \<or> (\<exists>Y M D y m d. length Y = 4 \<and> length M = 2 \<and> length D = 2
        \<and> (\<forall>c\<in>set (Y @ M @ D). decimal c \<noteq> None)
        \<and> py_int (StrArg Y) = Inr y \<and> py_int (StrArg M) = Inr m \<and> py_int (StrArg D) = Inr d
        \<and> is_valid_date (StrArg Y) (StrArg M) (StrArg D)
        \<and> re_search contiguous_pattern s = Some [Y, M @ D]
        \<and> ts_contiguous s = Inr (Some (Y @ [0x2E] @ M @ [0x2E] @ D))
        \<and> age_contiguous s = map_sum id Some (mk_datetime y m d))"
proof -
  consider (none) "re_search contiguous_pattern s = None" "age_contiguous s = Inr None"
    | (some) Y MD y m d where "re_search contiguous_pattern s = Some [Y, MD]"
        "length Y = 4" "length MD = 4" "\<forall>c\<in>set (Y @ MD). decimal c \<noteq> None"
        "py_int (StrArg Y) = Inr y" "py_int (StrArg (take 2 MD)) = Inr m"
        "py_int (StrArg (drop 2 MD)) = Inr d"
        "age_contiguous s =
           (if is_valid_date (StrArg Y) (StrArg (take 2 MD)) (StrArg (drop 2 MD))
            then map_sum id Some (mk_datetime y m d) else Inr None)"
    using age_contiguous_cases [of s] by (elim disjE exE conjE) blast+
  then show ?thesis
  proof cases
    case none
    then show ?thesis by (simp add: ts_contiguous_eq)
  next
    case some
    let ?M = "take 2 MD" and ?D = "drop 2 MD"
    have ts: "ts_contiguous s =
        (if is_valid_date (StrArg Y) (StrArg ?M) (StrArg ?D)
         then Inr (Some (Y @ [0x2E] @ ?M @ [0x2E] @ ?D)) else Inr None)"
      using some(1) by (simp add: ts_contiguous_eq)
    show ?thesis
    proof (cases "is_valid_date (StrArg Y) (StrArg ?M) (StrArg ?D)")
      case False
      then show ?thesis using some(8) ts by simp
    next
      case True
      have "length ?M = 2" "length ?D = 2" "?M @ ?D = MD" using some(3) by simp_all
      moreover have "\<forall>c\<in>set (Y @ ?M @ ?D). decimal c \<noteq> None"
        using some(4) by simp
      ultimately show ?thesis
        using True some(1,2,5,6,7,8) ts by (intro disjI2 exI [of _ Y] exI [of _ ?M] exI [of _ ?D] exI [of _ y] exI [of _ m] exI [of _ d]) simp
    qed
  qed
qed

lemma extract_cases:
  "(age_extract_date_from_filename p fn = Inr None
      \<and> ts_extract_date_from_filename p fn = Inr None)
   \<or> (\<exists>Y M D y m d. length Y = 4 \<and> length M = 2 \<and> length D = 2
        \<and> (\<forall>c\<in>set (Y @ M @ D). decimal c \<noteq> None)
        \<and> py_int (StrArg Y) = Inr y \<and> py_int (StrArg M) = Inr m \<and> py_int (StrArg D) = Inr d
        \<and> is_valid_date (StrArg Y) (StrArg M) (StrArg D)
        \<and> (re_search delimited_pattern (fst (splitext p fn)) = Some [Y, M, D]
             \<or> re_search contiguous_pattern (fst (splitext p fn)) = Some [Y, M @ D])
        \<and> ts_extract_date_from_filename p fn = Inr (Some (Y @ [0x2E] @ M @ [0x2E] @ D))
        \<and> age_extract_date_from_filename p fn = map_sum id Some (mk_datetime y m d))"
proof -
  let ?name = "fst (splitext p fn)"
  have fall: ?thesis
    if a: "age_extract_date_from_filename p fn = age_contiguous ?name"
      and t: "ts_extract_date_from_filename p fn = ts_contiguous ?name"
    using contiguous_rule_cases [of ?name] unfolding a t by blast
  show ?thesis
  proof (cases "re_search delimited_pattern ?name")
    case None
    then show ?thesis using fall age_fall_through ts_fall_through by blast
  next
    case (Some gs)
    then obtain Y M D where g: "gs = [Y, M, D]" "length Y = 4" "length M = 2" "length D = 2"
        "\<forall>c\<in>set (Y @ M @ D). decimal c \<noteq> None"
      using delimited_search_groups by blast
    have "Y \<noteq> []" "M \<noteq> []" "D \<noteq> []" using g(2-4) by auto
    then obtain y m d where v: "py_int (StrArg Y) = Inr y" "py_int (StrArg M) = Inr m"
        "py_int (StrArg D) = Inr d"
      using g(5) py_int_digits [of Y] py_int_digits [of M] py_int_digits [of D] by auto
    show ?thesis
    proof (cases "is_valid_date (StrArg Y) (StrArg M) (StrArg D)")
      case True
      have "age_extract_date_from_filename p fn = map_sum id Some (mk_datetime y m d)"
        using Some g(1) v True age_delimited_valid by blast
      moreover have "ts_extract_date_from_filename p fn = Inr (Some (Y @ [0x2E] @ M @ [0x2E] @ D))"
        using Some g(1) True ts_delimited_valid by blast
      ultimately show ?thesis using Some g v True by blast
    next
      case False
      then show ?thesis using fall Some g(1) age_fall_through ts_fall_through by blast
    qed
  qed
qed

lemma extract_casesE:
  obtains (none) "age_extract_date_from_filename p fn = Inr None"
      "ts_extract_date_from_filename p fn = Inr None"
    | (some) Y M D y m d where "length Y = 4" "length M = 2" "length D = 2"
        "\<forall>c\<in>set (Y @ M @ D). decimal c \<noteq> None"
        "py_int (StrArg Y) = Inr y" "py_int (StrArg M) = Inr m" "py_int (StrArg D) = Inr d"
        "is_valid_date (StrArg Y) (StrArg M) (StrArg D)"
        "re_search delimited_pattern (fst (splitext p fn)) = Some [Y, M, D]
          \<or> re_search contiguous_pattern (fst (splitext p fn)) = Some [Y, M @ D]"
        "ts_extract_date_from_filename p fn = Inr (Some (Y @ [0x2E] @ M @ [0x2E] @ D))"
        "age_extract_date_from_filename p fn = map_sum id Some (mk_datetime y m d)"
  using extract_cases [of p fn] by (elim disjE exE conjE) blast+

lemma map_sum_Some_cases:
  "map_sum id Some r \<noteq> Inr None"
  "(map_sum id Some r = Inr (Some t)) = (r = Inr t)"
  by (cases r; simp)+

lemma extract_null_iff:
  "age_extract_date_from_filename p fn = Inr None
     \<longleftrightarrow> ts_extract_date_from_filename p fn = Inr None"
proof (cases p fn rule: extract_casesE)
  case none
  then show ?thesis by simp
next
  case (some Y M D y m d)
  show ?thesis unfolding some(10,11) by (simp add: map_sum_Some_cases)
qed

lemma ts_never_raises: "ts_extract_date_from_filename p fn \<noteq> Inl e"
proof (cases p fn rule: extract_casesE)
  case none
  then show ?thesis by simp
next
  case (some Y M D y m d)
  show ?thesis unfolding some(10) by simp
qed

lemma age_date_ts_text:
  assumes "age_extract_date_from_filename p fn = Inr (Some t)"
  shows "\<exists>Y M D. ts_extract_date_from_filename p fn = Inr (Some (Y @ [0x2E] @ M @ [0x2E] @ D))
           \<and> length Y = 4 \<and> length M = 2 \<and> length D = 2
           \<and> (\<forall>c\<in>set (Y @ M @ D). decimal c \<noteq> None)
           \<and> py_int (StrArg Y) = Inr (dt_year t) \<and> py_int (StrArg M) = Inr (dt_month t)
           \<and> py_int (StrArg D) = Inr (dt_day t)
           \<and> is_valid_date (StrArg Y) (StrArg M) (StrArg D)
           \<and> ((\<forall>c\<in>set (Y @ M @ D). 48 \<le> c \<and> c \<le> 57) \<longrightarrow>
                ts_extract_date_from_filename p fn
                  = Inr (Some (spec_format (dt_year t) (dt_month t) (dt_day t))))"
proof (cases p fn rule: extract_casesE)
  case none
  then show ?thesis using assms by simp
next
  case (some Y M D y m d)
  have "mk_datetime y m d = Inr t"
    using assms unfolding some(11) by (simp add: map_sum_Some_cases)
  then have f: "dt_year t = y" "dt_month t = m" "dt_day t = d"
    using mk_datetime_fields by blast+
  have y: "1000 \<le> y"
    using some(8) is_valid_date_values [OF some(5,6,7)] by simp
  have r: "(\<forall>c\<in>set (Y @ M @ D). 48 \<le> c \<and> c \<le> 57) \<longrightarrow>
        ts_extract_date_from_filename p fn = Inr (Some (spec_format y m d))"
    unfolding some(10) using date_text_renders [OF some(1,2,3) _ some(5,6,7) y] by blast
  show ?thesis
    unfolding f
    using some(1-8,10) r by (intro exI [of _ Y] exI [of _ M] exI [of _ D] conjI)
qed

lemma ts_text_age_date:
  assumes "ts_extract_date_from_filename p fn = Inr (Some s)"
  shows "\<exists>Y M D y m d. s = Y @ [0x2E] @ M @ [0x2E] @ D
           \<and> length Y = 4 \<and> length M = 2 \<and> length D = 2
           \<and> (\<forall>c\<in>set (Y @ M @ D). decimal c \<noteq> None)
           \<and> py_int (StrArg Y) = Inr y \<and> py_int (StrArg M) = Inr m \<and> py_int (StrArg D) = Inr d
           \<and> is_valid_date (StrArg Y) (StrArg M) (StrArg D)
           \<and> (re_search delimited_pattern (fst (splitext p fn)) = Some [Y, M, D]
                \<or> re_search contiguous_pattern (fst (splitext p fn)) = Some [Y, M @ D])
           \<and> age_extract_date_from_filename p fn = map_sum id Some (mk_datetime y m d)"
proof (cases p fn rule: extract_casesE)
  case none
  then show ?thesis using assms by simp
next
  case (some Y M D y m d)
  have s: "s = Y @ [0x2E] @ M @ [0x2E] @ D" using assms unfolding some(10) by simp
  show ?thesis
    using s some(1-9,11)
    by (intro exI [of _ Y] exI [of _ M] exI [of _ D] exI [of _ y] exI [of _ m] exI [of _ d] conjI)
qed

lemmas format_eval = spec_format_def zero_pad2_def py_str_def digits_of.simps

subsection \<open>What the split removes, and names too short to match\<close>

lemma rfind_none: "c \<notin> set s \<Longrightarrow> rfind c s = - 1"
  by (induction s) (auto simp: Let_def)

lemma rfind_at_last:
  "c \<notin> set ys \<Longrightarrow> rfind c (xs @ c # ys) = int (length xs)"
  by (induction xs) (simp_all add: Let_def rfind_none)

lemma skip_leading_dots_iff:
  "skip_leading_dots s e i n \<longleftrightarrow> (\<exists>j. i \<le> j \<and> j < n \<and> take 1 (drop j s) \<noteq> [e])"
proof (induction s e i n rule: skip_leading_dots.induct)
  case (1 p extsep filenameIndex dotIndex)
  show ?case
  proof (cases "filenameIndex < dotIndex")
    case False
    then show ?thesis by (subst skip_leading_dots.simps) auto
  next
    case True
    show ?thesis
    proof (cases "take 1 (drop filenameIndex p) \<noteq> [extsep]")
      case ne: True
      then show ?thesis using True by (subst skip_leading_dots.simps) auto
    next
      case eq: False
      have "skip_leading_dots p extsep filenameIndex dotIndex
            = skip_leading_dots p extsep (filenameIndex + 1) dotIndex"
        using True eq by (subst skip_leading_dots.simps) simp
      also have "\<dots> = (\<exists>j. filenameIndex + 1 \<le> j \<and> j < dotIndex \<and> take 1 (drop j p) \<noteq> [extsep])"
        using "1.IH" True eq by simp
      also have "\<dots> = (\<exists>j. filenameIndex \<le> j \<and> j < dotIndex \<and> take 1 (drop j p) \<noteq> [extsep])"
      proof
        assume "\<exists>j. filenameIndex + 1 \<le> j \<and> j < dotIndex \<and> take 1 (drop j p) \<noteq> [extsep]"
        then show "\<exists>j. filenameIndex \<le> j \<and> j < dotIndex \<and> take 1 (drop j p) \<noteq> [extsep]"
          by (meson add_leD1)
      next
        assume "\<exists>j. filenameIndex \<le> j \<and> j < dotIndex \<and> take 1 (drop j p) \<noteq> [extsep]"
        then obtain j where j: "filenameIndex \<le> j" "j < dotIndex" "take 1 (drop j p) \<noteq> [extsep]"
          by blast
        then have "j \<noteq> filenameIndex" using eq by auto
        then have "filenameIndex + 1 \<le> j" using j(1) by simp
        then show "\<exists>j. filenameIndex + 1 \<le> j \<and> j < dotIndex \<and> take 1 (drop j p) \<noteq> [extsep]"
          using j(2,3) by blast
      qed
      finally show ?thesis .
    qed
  qed
qed

lemma splitext_generic_strips:
  assumes "sep \<notin> set (stem @ e # ext)"
    and "case altsep of None \<Rightarrow> True | Some a \<Rightarrow> a \<notin> set (stem @ e # ext)"
    and "e \<notin> set ext" and "\<exists>c\<in>set stem. c \<noteq> e"
  shows "splitext_generic (stem @ e # ext) sep altsep e = (stem, e # ext)"
proof -
  let ?p = "stem @ e # ext"
  have s: "rfind sep ?p = - 1" using assms(1) by (rule rfind_none)
  have a: "(case altsep of None \<Rightarrow> rfind sep ?p | Some a \<Rightarrow> max (rfind sep ?p) (rfind a ?p)) = - 1"
    using assms(2) s by (cases altsep) (simp_all add: rfind_none)
  have d: "rfind e ?p = int (length stem)" using assms(3) by (rule rfind_at_last)
  obtain j where j: "j < length stem" "stem ! j \<noteq> e"
    using assms(4) by (auto simp: in_set_conv_nth)
  then have "take 1 (drop j ?p) \<noteq> [e]"
    by (simp add: take_Suc_conv_app_nth drop_append nth_append hd_drop_conv_nth take_Suc)
  then have k: "skip_leading_dots ?p e 0 (length stem)"
    using j(1) by (auto simp: skip_leading_dots_iff)
  show ?thesis
    unfolding splitext_generic_def Let_def a d using k by simp
qed

lemma decimal_not_punct: "decimal 0x2E = None" "decimal 0x2F = None" "decimal 0x5C = None"
  by (simp_all add: decimal_def decimal_zeros_def)

lemma splitext_strips:
  assumes "\<forall>c\<in>set (stem @ ext). c \<noteq> 0x2F \<and> c \<noteq> 0x5C"
    and "0x2E \<notin> set ext" and "\<exists>c\<in>set stem. c \<noteq> 0x2E"
  shows "splitext p (stem @ [0x2E] @ ext) = (stem, [0x2E] @ ext)"
proof (cases p)
  case Posix
  have "(0x2F::nat) \<notin> set (stem @ 0x2E # ext)" using assms(1) by auto
  then show ?thesis
    using Posix splitext_generic_strips [of "0x2F" stem "0x2E" ext None] assms(2,3) by simp
next
  case Nt
  have "(0x2F::nat) \<notin> set (stem @ 0x2E # ext)" "(0x5C::nat) \<notin> set (stem @ 0x2E # ext)"
    using assms(1) by auto
  then show ?thesis
    using Nt splitext_generic_strips [of "0x5C" stem "0x2E" ext "Some 0x2F"] assms(2,3) by simp
qed

lemma match_classes_length:
  "match_classes ks s = Some (t, r) \<Longrightarrow> length ks + length r = length s"
  by (induction ks s arbitrary: t r rule: match_classes.induct)
     (auto split: if_splits option.splits)

lemma delimited_match_needs_10: "match_at delimited_pattern s = Some gs \<Longrightarrow> 10 \<le> length s"
  by (auto simp: delimited_pattern_def split: option.splits dest!: match_classes_length)

lemma contiguous_match_needs_8: "match_at contiguous_pattern s = Some gs \<Longrightarrow> 8 \<le> length s"
  by (auto simp: contiguous_pattern_def split: option.splits dest!: match_classes_length)

lemma re_search_match_at_suffix:
  "re_search ps s = Some gs \<Longrightarrow> \<exists>s'. match_at ps s' = Some gs \<and> length s' \<le> length s"
proof (induction s)
  case Nil
  then show ?case by auto
next
  case (Cons c s)
  show ?case
  proof (cases "match_at ps (c # s)")
    case None
    then have "re_search ps s = Some gs" using Cons.prems by simp
    then obtain s' where "match_at ps s' = Some gs" "length s' \<le> length s"
      using Cons.IH by blast
    then show ?thesis by (intro exI [of _ s']) simp
  next
    case (Some a)
    then show ?thesis using Cons.prems by (intro exI [of _ "c # s"]) simp
  qed
qed

lemma short_name_no_match:
  "length s < 10 \<Longrightarrow> re_search delimited_pattern s = None"
  "length s < 8 \<Longrightarrow> re_search contiguous_pattern s = None"
proof -
  show "re_search delimited_pattern s = None" if "length s < 10"
  proof (cases "re_search delimited_pattern s")
    case (Some gs)
    then show ?thesis
      using re_search_match_at_suffix [OF Some] delimited_match_needs_10 that by fastforce
  qed simp
  show "re_search contiguous_pattern s = None" if "length s < 8"
  proof (cases "re_search contiguous_pattern s")
    case (Some gs)
    then show ?thesis
      using re_search_match_at_suffix [OF Some] contiguous_match_needs_8 that by fastforce
  qed simp
qed

lemma no_match_at_non_digit:
  assumes "decimal c = None"
  shows "match_at delimited_pattern (c # s) = None" "match_at contiguous_pattern (c # s) = None"
proof -
  show "match_at delimited_pattern (c # s) = None"
    using assms by (simp add: delimited_pattern_def)
  have "c \<noteq> 0x32" using assms decimal_ascii [of "0x32"] by auto
  then show "match_at contiguous_pattern (c # s) = None"
    by (simp add: contiguous_pattern_def)
qed

lemma re_search_skips_non_digits:
  assumes "\<forall>c\<in>set pre. decimal c = None"
  shows "re_search delimited_pattern (pre @ s) = re_search delimited_pattern s"
    and "re_search contiguous_pattern (pre @ s) = re_search contiguous_pattern s"
  using assms by (induction pre) (simp_all add: no_match_at_non_digit)

text \<open>A date at the end of a name with no digit before it: the day goes, and nothing matches.\<close>

lemma date_at_end:
  assumes "\<forall>c\<in>set pre. decimal c = None \<and> c \<noteq> 0x2F \<and> c \<noteq> 0x5C"
    and "length Y = 4" "length M = 2" "D \<noteq> []" "\<forall>c\<in>set (Y @ M @ D). decimal c \<noteq> None"
  shows "splitext p (pre @ Y @ [0x2E] @ M @ [0x2E] @ D) = (pre @ Y @ [0x2E] @ M, [0x2E] @ D)"
    and "age_extract_date_from_filename p (pre @ Y @ [0x2E] @ M @ [0x2E] @ D) = Inr None"
    and "ts_extract_date_from_filename p (pre @ Y @ [0x2E] @ M @ [0x2E] @ D) = Inr None"
proof -
  let ?fn = "pre @ Y @ [0x2E] @ M @ [0x2E] @ D" and ?stem = "pre @ Y @ [0x2E] @ M"
  have dig: "c \<noteq> 0x2E \<and> c \<noteq> 0x2F \<and> c \<noteq> 0x5C" if "c \<in> set (Y @ M @ D)" for c
  proof -
    have "decimal c \<noteq> None" using that assms(5) by blast
    then show ?thesis using decimal_not_punct by auto
  qed
  have 1: "\<forall>c\<in>set (?stem @ D). c \<noteq> 0x2F \<and> c \<noteq> 0x5C"
    using assms(1) dig by auto
  have 2: "0x2E \<notin> set D" using dig by auto
  obtain y where "y \<in> set Y" using assms(2) by (cases Y) auto
  then have 3: "\<exists>c\<in>set ?stem. c \<noteq> 0x2E" using dig by auto
  have "splitext p (?stem @ [0x2E] @ D) = (?stem, [0x2E] @ D)"
    using 1 2 3 by (rule splitext_strips)
  then show s: "splitext p ?fn = (?stem, [0x2E] @ D)" by simp
  have pre: "\<forall>c\<in>set pre. decimal c = None" using assms(1) by simp
  have "length (Y @ [0x2E] @ M) < 8" using assms(2,3) by simp
  then have "re_search delimited_pattern (Y @ [0x2E] @ M) = None"
    "re_search contiguous_pattern (Y @ [0x2E] @ M) = None"
    using short_name_no_match by simp_all
  then have n: "re_search delimited_pattern ?stem = None"
    "re_search contiguous_pattern ?stem = None"
    using re_search_skips_non_digits [OF pre, of "Y @ [0x2E] @ M"] by simp_all
  have f: "fst (splitext p ?fn) = ?stem" using s by simp
  have nd: "re_search delimited_pattern (fst (splitext p ?fn)) = None"
    unfolding f by (rule n(1))
  have "age_extract_date_from_filename p ?fn = age_contiguous (fst (splitext p ?fn))"
    using age_fall_through nd by blast
  also have "\<dots> = Inr None"
    unfolding f age_contiguous_def n(2) by simp
  finally show "age_extract_date_from_filename p ?fn = Inr None" .
  have "ts_extract_date_from_filename p ?fn = ts_contiguous (fst (splitext p ?fn))"
    using ts_fall_through nd by blast
  also have "\<dots> = Inr None"
    unfolding f ts_contiguous_def n(2) by simp
  finally show "ts_extract_date_from_filename p ?fn = Inr None" .
qed

text \<open>What the contiguous rule gives for a match.\<close>

lemma contiguous_rule_result:
  assumes "re_search contiguous_pattern s = Some [Y, MD]"
  shows "\<exists>y m d. py_int (StrArg Y) = Inr y \<and> py_int (StrArg (take 2 MD)) = Inr m
      \<and> py_int (StrArg (drop 2 MD)) = Inr d
      \<and> age_contiguous s =
          (if is_valid_date (StrArg Y) (StrArg (take 2 MD)) (StrArg (drop 2 MD))
           then map_sum id Some (mk_datetime y m d) else Inr None)
      \<and> ts_contiguous s =
          (if is_valid_date (StrArg Y) (StrArg (take 2 MD)) (StrArg (drop 2 MD))
           then Inr (Some (Y @ [0x2E] @ take 2 MD @ [0x2E] @ drop 2 MD)) else Inr None)"
proof -
  have t: "ts_contiguous s =
          (if is_valid_date (StrArg Y) (StrArg (take 2 MD)) (StrArg (drop 2 MD))
           then Inr (Some (Y @ [0x2E] @ take 2 MD @ [0x2E] @ drop 2 MD)) else Inr None)"
    using assms by (simp add: ts_contiguous_eq)
  obtain Y' MD' y m d where c: "re_search contiguous_pattern s = Some [Y', MD']"
      "py_int (StrArg Y') = Inr y" "py_int (StrArg (take 2 MD')) = Inr m"
      "py_int (StrArg (drop 2 MD')) = Inr d"
      "age_contiguous s =
         (if is_valid_date (StrArg Y') (StrArg (take 2 MD')) (StrArg (drop 2 MD'))
          then map_sum id Some (mk_datetime y m d) else Inr None)"
    using age_contiguous_cases [of s] assms by (elim disjE exE conjE) (simp, blast)
  have e: "Y' = Y" "MD' = MD" using c(1) assms by simp_all
  show ?thesis
    using c(2-5) t unfolding e
    by (intro exI [of _ y] exI [of _ m] exI [of _ d] conjI)
qed

section \<open>The claims\<close>

text \<open>
  Claim C1: for every file name the extractor returns a date or \<open>None\<close> and never raises;
  a matched April 31 is accepted and returned. The age script does not: the triple passes
  \<open>_is_valid_date\<close>, and the \<open>datetime\<close> constructor then raises \<open>ValueError\<close>, which
  nothing catches. The timestamp script returns the text for the same name.
\<close>

theorem age_extract_raises_on_april_31:
  "age_extract_date_from_filename Posix (ascii ''IMG_2022.04.31.jpg'') = Inl ValueError
   \<and> age_extract_date_from_filename Nt (ascii ''IMG_2022.04.31.jpg'') = Inl ValueError
   \<and> is_valid_date (StrArg (ascii ''2022'')) (StrArg (ascii ''04'')) (StrArg (ascii ''31''))
   \<and> ts_extract_date_from_filename Posix (ascii ''IMG_2022.04.31.jpg'')
       = Inr (Some (ascii ''2022.04.31''))
   \<and> ts_extract_date_from_filename Nt (ascii ''IMG_2022.04.31.jpg'')
       = Inr (Some (ascii ''2022.04.31''))"
  by (simp add: extract_eval)

text \<open>
  Claim C3, as stated: a delimited match that fails validation gives \<open>None\<close>, even when a
  valid contiguous pattern is present. It fails for \<open>1999.01.01_20250904.jpg\<close>: the loop
  over the delimited pattern does not return, and the contiguous rule gives 2025-09-04.
\<close>

theorem invalid_delimited_not_null:
  "re_search delimited_pattern (fst (splitext Posix (ascii ''1999.01.01_20250904.jpg'')))
     = Some [ascii ''1999'', ascii ''01'', ascii ''01'']
   \<and> \<not> is_valid_date (StrArg (ascii ''1999'')) (StrArg (ascii ''01'')) (StrArg (ascii ''01''))
   \<and> age_extract_date_from_filename Posix (ascii ''1999.01.01_20250904.jpg'')
       = Inr (Some \<lparr>dt_year = 2025, dt_month = 9, dt_day = 4\<rparr>)
   \<and> age_extract_date_from_filename Posix (ascii ''1999.01.01_20250904.jpg'') \<noteq> Inr None
   \<and> ts_extract_date_from_filename Posix (ascii ''1999.01.01_20250904.jpg'')
       = Inr (Some (ascii ''2025.09.04''))
   \<and> ts_extract_date_from_filename Posix (ascii ''1999.01.01_20250904.jpg'') \<noteq> Inr None"
  by (simp add: extract_eval)

text \<open>
  Claim C3, amended: when the delimited match fails validation, the result is that of
  the contiguous rule on the same name. It is \<open>None\<close> exactly when the contiguous rule
  finds nothing or its numbers fail validation; when the contiguous rule finds numbers
  that pass, the timestamp script returns their text and the age script returns their
  date whenever the constructor accepts it.
\<close>

theorem invalid_delimited_falls_through:
  assumes "re_search delimited_pattern (fst (splitext p fn)) = Some [Y, M, D]"
    and "\<not> is_valid_date (StrArg Y) (StrArg M) (StrArg D)"
  shows "(ts_extract_date_from_filename p fn = Inr None \<longleftrightarrow>
            re_search contiguous_pattern (fst (splitext p fn)) = None
            \<or> (\<exists>Y' MD. re_search contiguous_pattern (fst (splitext p fn)) = Some [Y', MD]
                  \<and> \<not> is_valid_date (StrArg Y') (StrArg (take 2 MD)) (StrArg (drop 2 MD))))
    \<and> (age_extract_date_from_filename p fn = Inr None \<longleftrightarrow>
            re_search contiguous_pattern (fst (splitext p fn)) = None
            \<or> (\<exists>Y' MD. re_search contiguous_pattern (fst (splitext p fn)) = Some [Y', MD]
                  \<and> \<not> is_valid_date (StrArg Y') (StrArg (take 2 MD)) (StrArg (drop 2 MD))))
    \<and> (\<forall>Y' MD. re_search contiguous_pattern (fst (splitext p fn)) = Some [Y', MD]
            \<and> is_valid_date (StrArg Y') (StrArg (take 2 MD)) (StrArg (drop 2 MD)) \<longrightarrow>
          ts_extract_date_from_filename p fn
            = Inr (Some (Y' @ [0x2E] @ take 2 MD @ [0x2E] @ drop 2 MD))
          \<and> (\<exists>y m d. py_int (StrArg Y') = Inr y \<and> py_int (StrArg (take 2 MD)) = Inr m
                \<and> py_int (StrArg (drop 2 MD)) = Inr d
                \<and> (\<forall>t. mk_datetime y m d = Inr t \<longrightarrow>
                      age_extract_date_from_filename p fn = Inr (Some t))))"
proof -
  let ?name = "fst (splitext p fn)"
  let ?none = "re_search contiguous_pattern ?name = None
            \<or> (\<exists>Y' MD. re_search contiguous_pattern ?name = Some [Y', MD]
                  \<and> \<not> is_valid_date (StrArg Y') (StrArg (take 2 MD)) (StrArg (drop 2 MD)))"
  let ?some = "\<forall>Y' MD. re_search contiguous_pattern ?name = Some [Y', MD]
            \<and> is_valid_date (StrArg Y') (StrArg (take 2 MD)) (StrArg (drop 2 MD)) \<longrightarrow>
          ts_extract_date_from_filename p fn
            = Inr (Some (Y' @ [0x2E] @ take 2 MD @ [0x2E] @ drop 2 MD))
          \<and> (\<exists>y m d. py_int (StrArg Y') = Inr y \<and> py_int (StrArg (take 2 MD)) = Inr m
                \<and> py_int (StrArg (drop 2 MD)) = Inr d
                \<and> (\<forall>t. mk_datetime y m d = Inr t \<longrightarrow>
                      age_extract_date_from_filename p fn = Inr (Some t)))"
  have a: "age_extract_date_from_filename p fn = age_contiguous ?name"
    using assms age_fall_through by blast
  have t: "ts_extract_date_from_filename p fn = ts_contiguous ?name"
    using assms ts_fall_through by blast
  have "(ts_extract_date_from_filename p fn = Inr None \<longleftrightarrow> ?none)
      \<and> (age_extract_date_from_filename p fn = Inr None \<longleftrightarrow> ?none) \<and> ?some"
  proof (cases "re_search contiguous_pattern ?name")
    case None
    have "ts_extract_date_from_filename p fn = Inr None"
      unfolding t ts_contiguous_def None by simp
    moreover have "age_extract_date_from_filename p fn = Inr None"
      unfolding a age_contiguous_def None by simp
    moreover have ?none using None by (rule disjI1)
    moreover have ?some unfolding None by simp
    ultimately show ?thesis by blast
  next
    case (Some gs)
    then obtain Y0 MD0 where g: "gs = [Y0, MD0]"
      using contiguous_search_groups by blast
    have s: "re_search contiguous_pattern ?name = Some [Y0, MD0]" using Some g by simp
    obtain y m d where v: "py_int (StrArg Y0) = Inr y" "py_int (StrArg (take 2 MD0)) = Inr m"
        "py_int (StrArg (drop 2 MD0)) = Inr d"
        "age_contiguous ?name =
          (if is_valid_date (StrArg Y0) (StrArg (take 2 MD0)) (StrArg (drop 2 MD0))
           then map_sum id Some (mk_datetime y m d) else Inr None)"
        "ts_contiguous ?name =
          (if is_valid_date (StrArg Y0) (StrArg (take 2 MD0)) (StrArg (drop 2 MD0))
           then Inr (Some (Y0 @ [0x2E] @ take 2 MD0 @ [0x2E] @ drop 2 MD0)) else Inr None)"
      using contiguous_rule_result [OF s] by (elim exE conjE) blast
    show ?thesis
    proof (cases "is_valid_date (StrArg Y0) (StrArg (take 2 MD0)) (StrArg (drop 2 MD0))")
      case False
      have "ts_extract_date_from_filename p fn = Inr None"
        unfolding t v(5) using False by simp
      moreover have "age_extract_date_from_filename p fn = Inr None"
        unfolding a v(4) using False by simp
      moreover have ?none using s False by blast
      moreover have ?some unfolding s using False by blast
      ultimately show ?thesis by blast
    next
      case True
      have ts: "ts_extract_date_from_filename p fn
          = Inr (Some (Y0 @ [0x2E] @ take 2 MD0 @ [0x2E] @ drop 2 MD0))"
        unfolding t v(5) using True by simp
      have ag: "age_extract_date_from_filename p fn = map_sum id Some (mk_datetime y m d)"
        unfolding a v(4) using True by simp
      have 1: "ts_extract_date_from_filename p fn \<noteq> Inr None" unfolding ts by simp
      have 2: "age_extract_date_from_filename p fn \<noteq> Inr None"
        unfolding ag by (rule map_sum_Some_cases)
      have 3: "\<not> ?none" unfolding s using True by blast
      have "\<forall>t. mk_datetime y m d = Inr t \<longrightarrow>
              age_extract_date_from_filename p fn = Inr (Some t)"
        unfolding ag by simp
      then have e: "\<exists>y m d. py_int (StrArg Y0) = Inr y \<and> py_int (StrArg (take 2 MD0)) = Inr m
                \<and> py_int (StrArg (drop 2 MD0)) = Inr d
                \<and> (\<forall>t. mk_datetime y m d = Inr t \<longrightarrow>
                      age_extract_date_from_filename p fn = Inr (Some t))"
        using v(1,2,3) by blast
      have 4: ?some
      proof (intro allI impI)
        fix Y' MD
        assume h: "re_search contiguous_pattern ?name = Some [Y', MD]
            \<and> is_valid_date (StrArg Y') (StrArg (take 2 MD)) (StrArg (drop 2 MD))"
        then have q: "Y' = Y0" "MD = MD0" using s by simp_all
        show "ts_extract_date_from_filename p fn
            = Inr (Some (Y' @ [0x2E] @ take 2 MD @ [0x2E] @ drop 2 MD))
          \<and> (\<exists>y m d. py_int (StrArg Y') = Inr y \<and> py_int (StrArg (take 2 MD)) = Inr m
                \<and> py_int (StrArg (drop 2 MD)) = Inr d
                \<and> (\<forall>t. mk_datetime y m d = Inr t \<longrightarrow>
                      age_extract_date_from_filename p fn = Inr (Some t)))"
          unfolding q using ts e by (rule conjI)
      qed
      show ?thesis using 1 2 3 4 by blast
    qed
  qed
  then show ?thesis .
qed

theorem invalid_delimited_falls_through_witness:
  "re_search delimited_pattern (fst (splitext Nt (ascii ''1999.01.01_20250904.jpg'')))
     = Some [ascii ''1999'', ascii ''01'', ascii ''01'']
   \<and> \<not> is_valid_date (StrArg (ascii ''1999'')) (StrArg (ascii ''01'')) (StrArg (ascii ''01''))
   \<and> re_search contiguous_pattern (fst (splitext Nt (ascii ''1999.01.01_20250904.jpg'')))
       = Some [ascii ''2025'', ascii ''0904'']
   \<and> is_valid_date (StrArg (ascii ''2025'')) (StrArg (take 2 (ascii ''0904'')))
        (StrArg (drop 2 (ascii ''0904'')))
   \<and> ts_extract_date_from_filename Nt (ascii ''1999.01.01_20250904.jpg'')
       = Inr (Some (ascii ''2025'' @ [0x2E] @ take 2 (ascii ''0904'') @ [0x2E]
                      @ drop 2 (ascii ''0904'')))
   \<and> age_extract_date_from_filename Nt (ascii ''1999.01.01_20250904.jpg'')
       = Inr (Some \<lparr>dt_year = 2025, dt_month = 9, dt_day = 4\<rparr>)"
proof -
  let ?fn = "ascii ''1999.01.01_20250904.jpg''"
  let ?t = "\<lparr>dt_year = 2025, dt_month = 9, dt_day = 4\<rparr>"
  have h1: "re_search delimited_pattern (fst (splitext Nt ?fn))
     = Some [ascii ''1999'', ascii ''01'', ascii ''01'']"
    by (simp add: extract_eval)
  have h2: "\<not> is_valid_date (StrArg (ascii ''1999'')) (StrArg (ascii ''01'')) (StrArg (ascii ''01''))"
    by (simp add: extract_eval)
  have h3: "re_search contiguous_pattern (fst (splitext Nt ?fn))
       = Some [ascii ''2025'', ascii ''0904'']"
    by (simp add: extract_eval)
  have h4: "is_valid_date (StrArg (ascii ''2025'')) (StrArg (take 2 (ascii ''0904'')))
        (StrArg (drop 2 (ascii ''0904'')))"
    by (simp add: extract_eval)
  have v: "py_int (StrArg (ascii ''2025'')) = Inr 2025"
      "py_int (StrArg (take 2 (ascii ''0904''))) = Inr 9"
      "py_int (StrArg (drop 2 (ascii ''0904''))) = Inr 4"
      "mk_datetime 2025 9 4 = Inr ?t"
    by (simp_all add: extract_eval)
  have c: "ts_extract_date_from_filename Nt ?fn
            = Inr (Some (ascii ''2025'' @ [0x2E] @ take 2 (ascii ''0904'') @ [0x2E]
                      @ drop 2 (ascii ''0904'')))
          \<and> (\<exists>y m d. py_int (StrArg (ascii ''2025'')) = Inr y
                \<and> py_int (StrArg (take 2 (ascii ''0904''))) = Inr m
                \<and> py_int (StrArg (drop 2 (ascii ''0904''))) = Inr d
                \<and> (\<forall>t. mk_datetime y m d = Inr t \<longrightarrow>
                      age_extract_date_from_filename Nt ?fn = Inr (Some t)))"
    using invalid_delimited_falls_through [OF h1 h2, THEN conjunct2, THEN conjunct2] h3 h4
    by blast
  then have "age_extract_date_from_filename Nt ?fn = Inr (Some ?t)"
    using v by auto
  then show ?thesis using h1 h2 h3 h4 c by (intro conjI) simp_all
qed

text \<open>
  Claim C10, as stated: a name with no real extension whose dot-delimited date ends it
  loses the day and gives \<open>None\<close>. The day is lost, but \<open>20250904_2022.09.21\<close> still
  gives 2025-09-04, from the contiguous pattern before the date.
\<close>

theorem date_at_end_not_null:
  "splitext Posix (ascii ''20250904_2022.09.21'') = (ascii ''20250904_2022.09'', ascii ''.21'')
   \<and> age_extract_date_from_filename Posix (ascii ''20250904_2022.09.21'')
       = Inr (Some \<lparr>dt_year = 2025, dt_month = 9, dt_day = 4\<rparr>)
   \<and> age_extract_date_from_filename Posix (ascii ''20250904_2022.09.21'') \<noteq> Inr None
   \<and> ts_extract_date_from_filename Posix (ascii ''20250904_2022.09.21'')
       = Inr (Some (ascii ''2025.09.04''))
   \<and> ts_extract_date_from_filename Posix (ascii ''20250904_2022.09.21'') \<noteq> Inr None"
proof -
  have s: "splitext Posix (ascii ''20250904_2022.09.21'')
      = (ascii ''20250904_2022.09'', ascii ''.21'')"
    by (simp add: extract_eval)
  have a: "age_extract_date_from_filename Posix (ascii ''20250904_2022.09.21'')
       = Inr (Some \<lparr>dt_year = 2025, dt_month = 9, dt_day = 4\<rparr>)"
    by (simp add: extract_eval)
  have t: "ts_extract_date_from_filename Posix (ascii ''20250904_2022.09.21'')
       = Inr (Some (ascii ''2025.09.04''))"
    by (simp add: extract_eval)
  show ?thesis unfolding a t using s by simp
qed

text \<open>
  Claim C10, amended: splitting removes only the last dot suffix: the removed part is
  empty or a dot followed by no further dot, and a name without separators that ends in a
  dot and a dot-free suffix, with a character other than the dot before it, loses exactly
  that suffix. So a name that ends in a dot-delimited date loses the day, and when no
  digit (and no separator) comes before the date both scripts give \<open>None\<close>, as
  \<open>2022.09.21\<close> does, while \<open>2022.09.21.jpg\<close> gives 2022-09-21, on both platforms.
\<close>

theorem extension_stripping:
  "(fst (splitext p fn) @ snd (splitext p fn) = fn
       \<and> (snd (splitext p fn) = []
            \<or> (\<exists>e. snd (splitext p fn) = 0x2E # e \<and> 0x2E \<notin> set e)))
   \<and> ((\<forall>c\<in>set (stem @ ext). c \<noteq> 0x2F \<and> c \<noteq> 0x5C) \<and> 0x2E \<notin> set ext
         \<and> (\<exists>c\<in>set stem. c \<noteq> 0x2E) \<longrightarrow>
        splitext p (stem @ [0x2E] @ ext) = (stem, [0x2E] @ ext))
   \<and> ((\<forall>c\<in>set pre. decimal c = None \<and> c \<noteq> 0x2F \<and> c \<noteq> 0x5C)
         \<and> length Y = 4 \<and> length M = 2 \<and> D \<noteq> [] \<and> (\<forall>c\<in>set (Y @ M @ D). decimal c \<noteq> None) \<longrightarrow>
        splitext p (pre @ Y @ [0x2E] @ M @ [0x2E] @ D) = (pre @ Y @ [0x2E] @ M, [0x2E] @ D)
        \<and> age_extract_date_from_filename p (pre @ Y @ [0x2E] @ M @ [0x2E] @ D) = Inr None
        \<and> ts_extract_date_from_filename p (pre @ Y @ [0x2E] @ M @ [0x2E] @ D) = Inr None)
   \<and> splitext p (ascii ''2022.09.21'') = (ascii ''2022.09'', ascii ''.21'')
   \<and> age_extract_date_from_filename p (ascii ''2022.09.21'') = Inr None
   \<and> ts_extract_date_from_filename p (ascii ''2022.09.21'') = Inr None
   \<and> age_extract_date_from_filename p (ascii ''2022.09.21.jpg'')
       = Inr (Some \<lparr>dt_year = 2022, dt_month = 9, dt_day = 21\<rparr>)
   \<and> ts_extract_date_from_filename p (ascii ''2022.09.21.jpg'')
       = Inr (Some (ascii ''2022.09.21''))"
proof (intro conjI impI)
  show "fst (splitext p fn) @ snd (splitext p fn) = fn"
    using splitext_generic_parts [of fn _ _ "0x2E"] by (cases p) simp_all
  show "snd (splitext p fn) = [] \<or> (\<exists>e. snd (splitext p fn) = 0x2E # e \<and> 0x2E \<notin> set e)"
    using splitext_generic_parts [of fn _ _ "0x2E"] by (cases p) simp_all
next
  assume "(\<forall>c\<in>set (stem @ ext). c \<noteq> 0x2F \<and> c \<noteq> 0x5C) \<and> 0x2E \<notin> set ext
         \<and> (\<exists>c\<in>set stem. c \<noteq> 0x2E)"
  then show "splitext p (stem @ [0x2E] @ ext) = (stem, [0x2E] @ ext)"
    using splitext_strips [of stem ext p] by blast
next
  assume h: "(\<forall>c\<in>set pre. decimal c = None \<and> c \<noteq> 0x2F \<and> c \<noteq> 0x5C)
         \<and> length Y = 4 \<and> length M = 2 \<and> D \<noteq> [] \<and> (\<forall>c\<in>set (Y @ M @ D). decimal c \<noteq> None)"
  then have "\<forall>c\<in>set pre. decimal c = None \<and> c \<noteq> 0x2F \<and> c \<noteq> 0x5C" "length Y = 4"
    "length M = 2" "D \<noteq> []" "\<forall>c\<in>set (Y @ M @ D). decimal c \<noteq> None"
    by blast+
  then show "splitext p (pre @ Y @ [0x2E] @ M @ [0x2E] @ D) = (pre @ Y @ [0x2E] @ M, [0x2E] @ D)"
    "age_extract_date_from_filename p (pre @ Y @ [0x2E] @ M @ [0x2E] @ D) = Inr None"
    "ts_extract_date_from_filename p (pre @ Y @ [0x2E] @ M @ [0x2E] @ D) = Inr None"
    by (rule date_at_end)+
next
  show "splitext p (ascii ''2022.09.21'') = (ascii ''2022.09'', ascii ''.21'')"
    by (cases p) (simp_all add: extract_eval)
  show "age_extract_date_from_filename p (ascii ''2022.09.21'') = Inr None"
    by (cases p) (simp_all add: extract_eval)
  show "ts_extract_date_from_filename p (ascii ''2022.09.21'') = Inr None"
    by (cases p) (simp_all add: extract_eval)
  show "age_extract_date_from_filename p (ascii ''2022.09.21.jpg'')
       = Inr (Some \<lparr>dt_year = 2022, dt_month = 9, dt_day = 21\<rparr>)"
    by (cases p) (simp_all add: extract_eval)
  show "ts_extract_date_from_filename p (ascii ''2022.09.21.jpg'')
       = Inr (Some (ascii ''2022.09.21''))"
    by (cases p) (simp_all add: extract_eval)
qed

theorem extension_stripping_witness:
  "splitext Nt (ascii ''IMG_'' @ ascii ''2022'' @ [0x2E] @ ascii ''09'' @ [0x2E] @ ascii ''21'')
     = (ascii ''IMG_'' @ ascii ''2022'' @ [0x2E] @ ascii ''09'', [0x2E] @ ascii ''21'')
   \<and> age_extract_date_from_filename Nt
        (ascii ''IMG_'' @ ascii ''2022'' @ [0x2E] @ ascii ''09'' @ [0x2E] @ ascii ''21'')
       = Inr None
   \<and> ts_extract_date_from_filename Nt
        (ascii ''IMG_'' @ ascii ''2022'' @ [0x2E] @ ascii ''09'' @ [0x2E] @ ascii ''21'')
       = Inr None
   \<and> splitext Nt (ascii ''photo.backup'' @ [0x2E] @ ascii ''jpeg'')
       = (ascii ''photo.backup'', [0x2E] @ ascii ''jpeg'')"
proof -
  have h1: "(\<forall>c\<in>set (ascii ''IMG_''). decimal c = None \<and> c \<noteq> 0x2F \<and> c \<noteq> 0x5C)
      \<and> length (ascii ''2022'') = 4 \<and> length (ascii ''09'') = 2 \<and> ascii ''21'' \<noteq> []
      \<and> (\<forall>c\<in>set (ascii ''2022'' @ ascii ''09'' @ ascii ''21''). decimal c \<noteq> None)"
    by (simp add: ascii_def decimal_def decimal_zeros_def)
  have h2: "(\<forall>c\<in>set (ascii ''photo.backup'' @ ascii ''jpeg''). c \<noteq> 0x2F \<and> c \<noteq> 0x5C)
      \<and> 0x2E \<notin> set (ascii ''jpeg'') \<and> (\<exists>c\<in>set (ascii ''photo.backup''). c \<noteq> 0x2E)"
    by (simp add: ascii_def)
  note t = extension_stripping [of Nt _ "ascii ''photo.backup''" "ascii ''jpeg''"
      "ascii ''IMG_''" "ascii ''2022''" "ascii ''09''" "ascii ''21''"]
  have a: "splitext Nt (ascii ''photo.backup'' @ [0x2E] @ ascii ''jpeg'')
       = (ascii ''photo.backup'', [0x2E] @ ascii ''jpeg'')"
    using t [THEN conjunct2, THEN conjunct1] h2 by (rule mp)
  have b: "splitext Nt (ascii ''IMG_'' @ ascii ''2022'' @ [0x2E] @ ascii ''09'' @ [0x2E] @ ascii ''21'')
     = (ascii ''IMG_'' @ ascii ''2022'' @ [0x2E] @ ascii ''09'', [0x2E] @ ascii ''21'')
   \<and> age_extract_date_from_filename Nt
        (ascii ''IMG_'' @ ascii ''2022'' @ [0x2E] @ ascii ''09'' @ [0x2E] @ ascii ''21'')
       = Inr None
   \<and> ts_extract_date_from_filename Nt
        (ascii ''IMG_'' @ ascii ''2022'' @ [0x2E] @ ascii ''09'' @ [0x2E] @ ascii ''21'')
       = Inr None"
    using t [THEN conjunct2, THEN conjunct2, THEN conjunct1] h1 by (rule mp)
  show ?thesis using a b by (intro conjI) blast+
qed

text \<open>
  Claim C4: on or after the reference date, \<open>calculate_age\<close> returns the label of the
  specification's algorithm (every \<open>datetime\<close> has a month from 1 to 12), and 2025-10-01
  gives 29 followed by U+5929.
\<close>

theorem calculate_age_matches_spec:
  assumes "\<not> dt_less t BIRTH_DATE" "1 \<le> dt_month t" "dt_month t \<le> 12"
  shows "calculate_age t = spec_describe t BIRTH_DATE
    \<and> calculate_age \<lparr>dt_year = 2025, dt_month = 10, dt_day = 1\<rparr> = ascii ''29'' @ [0x5929]"
proof -
  have "calculate_age \<lparr>dt_year = 2025, dt_month = 10, dt_day = 1\<rparr> = ascii ''29'' @ [0x5929]"
    by (simp add: calculate_age_def dt_less_def BIRTH_DATE_def months_and_days_def py_str_def
        digits_of.simps ascii_def)
  then show ?thesis using calculate_age_refines [OF assms] by simp
qed

theorem calculate_age_matches_spec_witness:
  "\<not> dt_less \<lparr>dt_year = 2026, dt_month = 3, dt_day = 1\<rparr> BIRTH_DATE
   \<and> calculate_age \<lparr>dt_year = 2026, dt_month = 3, dt_day = 1\<rparr>
       = spec_describe \<lparr>dt_year = 2026, dt_month = 3, dt_day = 1\<rparr> BIRTH_DATE
   \<and> calculate_age \<lparr>dt_year = 2026, dt_month = 3, dt_day = 1\<rparr>
       = ascii ''5'' @ [0x4E2A, 0x6708] @ ascii ''27'' @ [0x5929]"
proof -
  have h: "\<not> dt_less \<lparr>dt_year = 2026, dt_month = 3, dt_day = 1\<rparr> BIRTH_DATE"
    by (simp add: dt_less_def BIRTH_DATE_def)
  have v: "calculate_age \<lparr>dt_year = 2026, dt_month = 3, dt_day = 1\<rparr>
       = ascii ''5'' @ [0x4E2A, 0x6708] @ ascii ''27'' @ [0x5929]"
    by (simp add: calculate_age_def dt_less_def BIRTH_DATE_def months_and_days_def py_str_def
        digits_of.simps ascii_def)
  show ?thesis
    using calculate_age_matches_spec [OF h, simplified] h v by simp
qed

text \<open>
  Claim C5: for a date on or after the reference date (a month from 1 to 12 and a day
  from 1 to 31), after both borrowing steps the total of months is not negative and the
  days are at least 0 and below 31.
\<close>

theorem borrowing_bounds:
  assumes "\<not> dt_less t BIRTH_DATE" "1 \<le> dt_month t" "dt_month t \<le> 12"
    "1 \<le> dt_day t" "dt_day t \<le> 31"
  shows "0 \<le> fst (months_and_days t) \<and> 0 \<le> snd (months_and_days t)
    \<and> snd (months_and_days t) < 31"
  using months_and_days_bounds [OF assms] .

theorem borrowing_bounds_witness:
  "\<not> dt_less \<lparr>dt_year = 2026, dt_month = 3, dt_day = 1\<rparr> BIRTH_DATE
   \<and> months_and_days \<lparr>dt_year = 2026, dt_month = 3, dt_day = 1\<rparr> = (5, 27)
   \<and> 0 \<le> fst (months_and_days \<lparr>dt_year = 2026, dt_month = 3, dt_day = 1\<rparr>)
   \<and> 0 \<le> snd (months_and_days \<lparr>dt_year = 2026, dt_month = 3, dt_day = 1\<rparr>)
   \<and> snd (months_and_days \<lparr>dt_year = 2026, dt_month = 3, dt_day = 1\<rparr>) < 31"
proof -
  have h: "\<not> dt_less \<lparr>dt_year = 2026, dt_month = 3, dt_day = 1\<rparr> BIRTH_DATE"
    by (simp add: dt_less_def BIRTH_DATE_def)
  have v: "months_and_days \<lparr>dt_year = 2026, dt_month = 3, dt_day = 1\<rparr> = (5, 27)"
    by (simp add: months_and_days_def BIRTH_DATE_def)
  show ?thesis
    using borrowing_bounds [OF h, simplified] h v by simp
qed

text \<open>
  Claim C2, as stated: the two extractors return the same date, one as a \<open>datetime\<close> and
  one rendered, and \<open>None\<close> on the same names. It fails twice. For a name with April 31
  the timestamp script returns the rendered triple and the age script raises. For a name
  whose date is written in Arabic-Indic digits (U+0660 to U+0669) the age script returns
  2022-09-21 and the timestamp script returns the matched digits as they are, not the
  rendering of 2022, 9, 21.
\<close>

theorem extractors_differ:
  "ts_extract_date_from_filename Posix (ascii ''IMG_2022.04.31.jpg'')
     = Inr (Some (spec_format 2022 4 31))
   \<and> age_extract_date_from_filename Posix (ascii ''IMG_2022.04.31.jpg'') = Inl ValueError
   \<and> age_extract_date_from_filename Posix
        ([0x662, 0x660, 0x662, 0x662, 0x2E, 0x660, 0x669, 0x2E, 0x662, 0x661] @ ascii ''.jpg'')
       = Inr (Some \<lparr>dt_year = 2022, dt_month = 9, dt_day = 21\<rparr>)
   \<and> ts_extract_date_from_filename Posix
        ([0x662, 0x660, 0x662, 0x662, 0x2E, 0x660, 0x669, 0x2E, 0x662, 0x661] @ ascii ''.jpg'')
       = Inr (Some [0x662, 0x660, 0x662, 0x662, 0x2E, 0x660, 0x669, 0x2E, 0x662, 0x661])
   \<and> ts_extract_date_from_filename Posix
        ([0x662, 0x660, 0x662, 0x662, 0x2E, 0x660, 0x669, 0x2E, 0x662, 0x661] @ ascii ''.jpg'')
       \<noteq> Inr (Some (spec_format 2022 9 21))"
proof -
  have f1: "spec_format 2022 4 31 = ascii ''2022.04.31''"
    and f2: "spec_format 2022 9 21 = ascii ''2022.09.21''"
    by (simp_all add: format_eval ascii_def)
  have a: "ts_extract_date_from_filename Posix (ascii ''IMG_2022.04.31.jpg'')
     = Inr (Some (ascii ''2022.04.31''))"
    by (simp add: extract_eval)
  have b: "age_extract_date_from_filename Posix (ascii ''IMG_2022.04.31.jpg'') = Inl ValueError"
    by (simp add: extract_eval)
  have c: "age_extract_date_from_filename Posix
        ([0x662, 0x660, 0x662, 0x662, 0x2E, 0x660, 0x669, 0x2E, 0x662, 0x661] @ ascii ''.jpg'')
       = Inr (Some \<lparr>dt_year = 2022, dt_month = 9, dt_day = 21\<rparr>)"
    by (simp add: extract_eval)
  have d: "ts_extract_date_from_filename Posix
        ([0x662, 0x660, 0x662, 0x662, 0x2E, 0x660, 0x669, 0x2E, 0x662, 0x661] @ ascii ''.jpg'')
       = Inr (Some [0x662, 0x660, 0x662, 0x662, 0x2E, 0x660, 0x669, 0x2E, 0x662, 0x661])"
    by (simp add: extract_eval)
  have e: "[0x662, 0x660, 0x662, 0x662, 0x2E, 0x660, 0x669, 0x2E, 0x662, 0x661]
        \<noteq> ascii ''2022.09.21''"
    by (simp add: ascii_def)
  show ?thesis unfolding f1 f2 d using a b c e by simp
qed

text \<open>
  Claim C2, amended: both scripts return \<open>None\<close> on the same names and the timestamp
  script never raises; when the age script returns a date, the timestamp script returns
  the matched texts joined by dots, whose values are the fields of that date, and this is
  the zero-padded rendering of the date when the matched digits are ASCII; when the
  timestamp script returns a text and the constructor accepts its values, the age script
  returns that date.
\<close>

theorem extractors_agree:
  "(age_extract_date_from_filename p fn = Inr None
      \<longleftrightarrow> ts_extract_date_from_filename p fn = Inr None)
   \<and> (\<forall>e. ts_extract_date_from_filename p fn \<noteq> Inl e)
   \<and> (\<forall>t. age_extract_date_from_filename p fn = Inr (Some t) \<longrightarrow>
        (\<exists>Y M D. ts_extract_date_from_filename p fn = Inr (Some (Y @ [0x2E] @ M @ [0x2E] @ D))
           \<and> length Y = 4 \<and> length M = 2 \<and> length D = 2
           \<and> py_int (StrArg Y) = Inr (dt_year t) \<and> py_int (StrArg M) = Inr (dt_month t)
           \<and> py_int (StrArg D) = Inr (dt_day t)
           \<and> ((\<forall>c\<in>set (Y @ M @ D). 48 \<le> c \<and> c \<le> 57) \<longrightarrow>
                ts_extract_date_from_filename p fn
                  = Inr (Some (spec_format (dt_year t) (dt_month t) (dt_day t))))))
   \<and> (\<forall>s. ts_extract_date_from_filename p fn = Inr (Some s) \<longrightarrow>
        (\<exists>Y M D y m d. s = Y @ [0x2E] @ M @ [0x2E] @ D
           \<and> py_int (StrArg Y) = Inr y \<and> py_int (StrArg M) = Inr m \<and> py_int (StrArg D) = Inr d
           \<and> (\<forall>t. mk_datetime y m d = Inr t \<longrightarrow>
                 age_extract_date_from_filename p fn = Inr (Some t))))"
proof (intro conjI allI impI)
  show "age_extract_date_from_filename p fn = Inr None
      \<longleftrightarrow> ts_extract_date_from_filename p fn = Inr None"
    by (rule extract_null_iff)
next
  fix e show "ts_extract_date_from_filename p fn \<noteq> Inl e"
    by (rule ts_never_raises)
next
  fix t assume a: "age_extract_date_from_filename p fn = Inr (Some t)"
  obtain Y M D where
    "ts_extract_date_from_filename p fn = Inr (Some (Y @ [0x2E] @ M @ [0x2E] @ D))"
    "length Y = 4" "length M = 2" "length D = 2"
    "py_int (StrArg Y) = Inr (dt_year t)" "py_int (StrArg M) = Inr (dt_month t)"
    "py_int (StrArg D) = Inr (dt_day t)"
    "(\<forall>c\<in>set (Y @ M @ D). 48 \<le> c \<and> c \<le> 57) \<longrightarrow>
       ts_extract_date_from_filename p fn
         = Inr (Some (spec_format (dt_year t) (dt_month t) (dt_day t)))"
    using age_date_ts_text [OF a] by (elim exE conjE) blast
  then show "\<exists>Y M D. ts_extract_date_from_filename p fn = Inr (Some (Y @ [0x2E] @ M @ [0x2E] @ D))
           \<and> length Y = 4 \<and> length M = 2 \<and> length D = 2
           \<and> py_int (StrArg Y) = Inr (dt_year t) \<and> py_int (StrArg M) = Inr (dt_month t)
           \<and> py_int (StrArg D) = Inr (dt_day t)
           \<and> ((\<forall>c\<in>set (Y @ M @ D). 48 \<le> c \<and> c \<le> 57) \<longrightarrow>
                ts_extract_date_from_filename p fn
                  = Inr (Some (spec_format (dt_year t) (dt_month t) (dt_day t))))"
    by (intro exI [of _ Y] exI [of _ M] exI [of _ D] conjI)
next
  fix s assume a: "ts_extract_date_from_filename p fn = Inr (Some s)"
  obtain Y M D y m d where s: "s = Y @ [0x2E] @ M @ [0x2E] @ D"
    "py_int (StrArg Y) = Inr y" "py_int (StrArg M) = Inr m" "py_int (StrArg D) = Inr d"
    "age_extract_date_from_filename p fn = map_sum id Some (mk_datetime y m d)"
    using ts_text_age_date [OF a] by (elim exE conjE) blast
  have "\<forall>t. mk_datetime y m d = Inr t \<longrightarrow> age_extract_date_from_filename p fn = Inr (Some t)"
    unfolding s(5) by simp
  then show "\<exists>Y M D y m d. s = Y @ [0x2E] @ M @ [0x2E] @ D
           \<and> py_int (StrArg Y) = Inr y \<and> py_int (StrArg M) = Inr m \<and> py_int (StrArg D) = Inr d
           \<and> (\<forall>t. mk_datetime y m d = Inr t \<longrightarrow>
                 age_extract_date_from_filename p fn = Inr (Some t))"
    using s(1-4)
    by (intro exI [of _ Y] exI [of _ M] exI [of _ D] exI [of _ y] exI [of _ m] exI [of _ d] conjI)
qed

theorem extractors_agree_witness:
  "age_extract_date_from_filename Nt (ascii ''IMG_2022.09.21.jpg'')
     = Inr (Some \<lparr>dt_year = 2022, dt_month = 9, dt_day = 21\<rparr>)
   \<and> ts_extract_date_from_filename Nt (ascii ''IMG_2022.09.21.jpg'')
       = Inr (Some (ascii ''2022.09.21''))
   \<and> (\<exists>Y M D. ts_extract_date_from_filename Nt (ascii ''IMG_2022.09.21.jpg'')
         = Inr (Some (Y @ [0x2E] @ M @ [0x2E] @ D))
        \<and> py_int (StrArg Y) = Inr 2022 \<and> py_int (StrArg M) = Inr 9
        \<and> py_int (StrArg D) = Inr 21)"
proof -
  let ?t = "\<lparr>dt_year = 2022, dt_month = 9, dt_day = 21\<rparr>"
  have h: "age_extract_date_from_filename Nt (ascii ''IMG_2022.09.21.jpg'') = Inr (Some ?t)"
    by (simp add: extract_eval)
  have v: "ts_extract_date_from_filename Nt (ascii ''IMG_2022.09.21.jpg'')
       = Inr (Some (ascii ''2022.09.21''))"
    by (simp add: extract_eval)
  have "\<forall>t. age_extract_date_from_filename Nt (ascii ''IMG_2022.09.21.jpg'') = Inr (Some t) \<longrightarrow>
        (\<exists>Y M D. ts_extract_date_from_filename Nt (ascii ''IMG_2022.09.21.jpg'')
             = Inr (Some (Y @ [0x2E] @ M @ [0x2E] @ D))
           \<and> length Y = 4 \<and> length M = 2 \<and> length D = 2
           \<and> py_int (StrArg Y) = Inr (dt_year t) \<and> py_int (StrArg M) = Inr (dt_month t)
           \<and> py_int (StrArg D) = Inr (dt_day t)
           \<and> ((\<forall>c\<in>set (Y @ M @ D). 48 \<le> c \<and> c \<le> 57) \<longrightarrow>
                ts_extract_date_from_filename Nt (ascii ''IMG_2022.09.21.jpg'')
                  = Inr (Some (spec_format (dt_year t) (dt_month t) (dt_day t)))))"
    using extractors_agree [of Nt "ascii ''IMG_2022.09.21.jpg''"] by (elim conjE) assumption
  then obtain Y M D where
    "ts_extract_date_from_filename Nt (ascii ''IMG_2022.09.21.jpg'')
         = Inr (Some (Y @ [0x2E] @ M @ [0x2E] @ D))"
    "py_int (StrArg Y) = Inr (dt_year ?t)" "py_int (StrArg M) = Inr (dt_month ?t)"
    "py_int (StrArg D) = Inr (dt_day ?t)"
    using h by blast
  then have "\<exists>Y M D. ts_extract_date_from_filename Nt (ascii ''IMG_2022.09.21.jpg'')
         = Inr (Some (Y @ [0x2E] @ M @ [0x2E] @ D))
        \<and> py_int (StrArg Y) = Inr 2022 \<and> py_int (StrArg M) = Inr 9
        \<and> py_int (StrArg D) = Inr 21"
    by (intro exI [of _ Y] exI [of _ M] exI [of _ D]) simp
  then show ?thesis using h v by (intro conjI)
qed

text \<open>
  Claim C6, as stated: when a valid delimited triple and a valid contiguous pattern are
  both present, the delimited date is returned. It fails for
  \<open>1999.01.01_2022.09.21_20250904.jpg\<close>: the valid triple 2022.09.21 is present (at
  offset 11), but the search stops at the first triple, which is invalid, and the
  contiguous rule gives 2025-09-04.
\<close>

theorem first_delimited_invalid_hides_later_valid:
  "match_at delimited_pattern
      (drop 11 (fst (splitext Posix (ascii ''1999.01.01_2022.09.21_20250904.jpg''))))
     = Some [ascii ''2022'', ascii ''09'', ascii ''21'']
   \<and> is_valid_date (StrArg (ascii ''2022'')) (StrArg (ascii ''09'')) (StrArg (ascii ''21''))
   \<and> re_search contiguous_pattern
        (fst (splitext Posix (ascii ''1999.01.01_2022.09.21_20250904.jpg'')))
       = Some [ascii ''2025'', ascii ''0904'']
   \<and> is_valid_date (StrArg (ascii ''2025'')) (StrArg (ascii ''09'')) (StrArg (ascii ''04''))
   \<and> age_extract_date_from_filename Posix (ascii ''1999.01.01_2022.09.21_20250904.jpg'')
       = Inr (Some \<lparr>dt_year = 2025, dt_month = 9, dt_day = 4\<rparr>)
   \<and> ts_extract_date_from_filename Posix (ascii ''1999.01.01_2022.09.21_20250904.jpg'')
       = Inr (Some (ascii ''2025.09.04''))"
  by (simp add: extract_eval)

text \<open>
  Claim C6, amended: when the leftmost delimited triple passes the range validation,
  the timestamp script returns its text and the age script returns its date whenever the
  constructor accepts it, whatever contiguous pattern the name also holds.
\<close>

theorem leftmost_valid_delimited_wins:
  assumes "re_search delimited_pattern (fst (splitext p fn)) = Some [Y, M, D]"
    and "is_valid_date (StrArg Y) (StrArg M) (StrArg D)"
  shows "ts_extract_date_from_filename p fn = Inr (Some (Y @ [0x2E] @ M @ [0x2E] @ D))
    \<and> (\<exists>y m d. py_int (StrArg Y) = Inr y \<and> py_int (StrArg M) = Inr m
          \<and> py_int (StrArg D) = Inr d
          \<and> (\<forall>t. mk_datetime y m d = Inr t \<longrightarrow>
                age_extract_date_from_filename p fn = Inr (Some t)))"
proof -
  obtain y m d where v: "py_int (StrArg Y) = Inr y" "py_int (StrArg M) = Inr m"
      "py_int (StrArg D) = Inr d"
    using assms(2) by (auto simp: is_valid_date_def split: sum.splits)
  have "age_extract_date_from_filename p fn = map_sum id Some (mk_datetime y m d)"
    using age_delimited_valid [OF assms(1) v assms(2)] .
  then have "\<forall>t. mk_datetime y m d = Inr t \<longrightarrow>
                age_extract_date_from_filename p fn = Inr (Some t)"
    by simp
  then show ?thesis using v ts_delimited_valid [OF assms] by blast
qed

theorem leftmost_valid_delimited_wins_witness:
  "re_search delimited_pattern (fst (splitext Nt (ascii ''2022.09.21_20250904.jpg'')))
     = Some [ascii ''2022'', ascii ''09'', ascii ''21'']
   \<and> is_valid_date (StrArg (ascii ''2022'')) (StrArg (ascii ''09'')) (StrArg (ascii ''21''))
   \<and> re_search contiguous_pattern (fst (splitext Nt (ascii ''2022.09.21_20250904.jpg'')))
       = Some [ascii ''2025'', ascii ''0904'']
   \<and> ts_extract_date_from_filename Nt (ascii ''2022.09.21_20250904.jpg'')
       = Inr (Some (ascii ''2022'' @ [0x2E] @ ascii ''09'' @ [0x2E] @ ascii ''21''))
   \<and> age_extract_date_from_filename Nt (ascii ''2022.09.21_20250904.jpg'')
       = Inr (Some \<lparr>dt_year = 2022, dt_month = 9, dt_day = 21\<rparr>)"
proof -
  have h1: "re_search delimited_pattern (fst (splitext Nt (ascii ''2022.09.21_20250904.jpg'')))
     = Some [ascii ''2022'', ascii ''09'', ascii ''21'']"
    by (simp add: extract_eval)
  have h2: "is_valid_date (StrArg (ascii ''2022'')) (StrArg (ascii ''09'')) (StrArg (ascii ''21''))"
    by (simp add: extract_eval)
  have h3: "re_search contiguous_pattern (fst (splitext Nt (ascii ''2022.09.21_20250904.jpg'')))
       = Some [ascii ''2025'', ascii ''0904'']"
    by (simp add: extract_eval)
  have v: "py_int (StrArg (ascii ''2022'')) = Inr 2022" "py_int (StrArg (ascii ''09'')) = Inr 9"
      "py_int (StrArg (ascii ''21'')) = Inr 21"
      "mk_datetime 2022 9 21 = Inr \<lparr>dt_year = 2022, dt_month = 9, dt_day = 21\<rparr>"
    by (simp_all add: extract_eval)
  show ?thesis
    using leftmost_valid_delimited_wins [OF h1 h2] h1 h2 h3 v by auto
qed

text \<open>
  Claim C7: before the reference date, \<open>calculate_age\<close> returns U+8DDD U+79BB U+51FA
  U+751F, the number of days and U+5929, where the number is the count of calendar days
  from the photo date to the reference date: that many steps of one day lead to the
  reference date and no fewer do. 2025-08-20 gives 13.
\<close>

theorem days_before_birth_label:
  assumes "constructed t" "dt_less t BIRTH_DATE"
  shows "(\<exists>n. 0 < n
           \<and> calculate_age t = [0x8DDD, 0x79BB, 0x51FA, 0x751F] @ py_str (int n) @ [0x5929]
           \<and> (calendar_next_day ^^ n) t = BIRTH_DATE
           \<and> (\<forall>k<n. (calendar_next_day ^^ k) t \<noteq> BIRTH_DATE))
    \<and> calculate_age \<lparr>dt_year = 2025, dt_month = 8, dt_day = 20\<rparr>
        = [0x8DDD, 0x79BB, 0x51FA, 0x751F] @ ascii ''13'' @ [0x5929]"
proof -
  obtain n where n: "0 < n" "(calendar_next_day ^^ n) t = BIRTH_DATE"
      "toordinal BIRTH_DATE = toordinal t + int n"
      "\<forall>k<n. (calendar_next_day ^^ k) t \<noteq> BIRTH_DATE"
    using elapsed_days_to_birth [OF assms] by blast
  have "sub_days BIRTH_DATE t = int n"
    using n(3) by (simp add: sub_days_def)
  then have "calculate_age t = [0x8DDD, 0x79BB, 0x51FA, 0x751F] @ py_str (int n) @ [0x5929]"
    using assms(2) by (simp add: calculate_age_def)
  then have a: "\<exists>n. 0 < n
           \<and> calculate_age t = [0x8DDD, 0x79BB, 0x51FA, 0x751F] @ py_str (int n) @ [0x5929]
           \<and> (calendar_next_day ^^ n) t = BIRTH_DATE
           \<and> (\<forall>k<n. (calendar_next_day ^^ k) t \<noteq> BIRTH_DATE)"
    using n(1,2,4) by blast
  have b: "calculate_age \<lparr>dt_year = 2025, dt_month = 8, dt_day = 20\<rparr>
        = [0x8DDD, 0x79BB, 0x51FA, 0x751F] @ ascii ''13'' @ [0x5929]"
    by (simp add: calculate_age_def dt_less_def BIRTH_DATE_def sub_days_def toordinal_def
        days_before_year_def days_before_month_def DAYS_BEFORE_MONTH_def is_leap_def py_str_def
        digits_of.simps ascii_def)
  show ?thesis using a b by (rule conjI)
qed

theorem days_before_birth_label_witness:
  "constructed \<lparr>dt_year = 2025, dt_month = 8, dt_day = 20\<rparr>
   \<and> dt_less \<lparr>dt_year = 2025, dt_month = 8, dt_day = 20\<rparr> BIRTH_DATE
   \<and> (\<exists>n. 0 < n \<and> (calendar_next_day ^^ n) \<lparr>dt_year = 2025, dt_month = 8, dt_day = 20\<rparr>
              = BIRTH_DATE)"
proof -
  have h1: "constructed \<lparr>dt_year = 2025, dt_month = 8, dt_day = 20\<rparr>"
    by (simp add: constructed_def mk_datetime_def days_in_month_def DAYS_IN_MONTH_def)
  have h2: "dt_less \<lparr>dt_year = 2025, dt_month = 8, dt_day = 20\<rparr> BIRTH_DATE"
    by (simp add: dt_less_def BIRTH_DATE_def)
  have "\<exists>n. 0 < n \<and> (calendar_next_day ^^ n) \<lparr>dt_year = 2025, dt_month = 8, dt_day = 20\<rparr>
              = BIRTH_DATE"
    using days_before_birth_label [OF h1 h2] by blast
  then show ?thesis using h1 h2 by (intro conjI)
qed






end
